theory Spec2Isabelle
  imports Main "HOL-Library.Word" "HOL-Library.Sublist" "HOL-Library.List_Lexorder"
    "HOL-Library.Char_ord"
begin

unbundle bit_operations_syntax

section \<open>The value model: \<open>variant_data\<close> (view) and \<open>data\<close> (owning)\<close>

text \<open>
  \<^verbatim>\<open>broker/fwd.hh\<close> fixes the arithmetic payloads: \<open>boolean = bool\<close>,
  \<open>count = uint64_t\<close>, \<open>integer = int64_t\<close>, \<open>real = double\<close>. A \<open>count\<close> is a
  64-bit word read unsigned, an \<open>integer\<close> a 64-bit word read in two's complement, and a
  \<open>real\<close> is kept as the 64 bits of its IEEE-754 binary64 representation; the comparisons
  of \<open>double\<close> are written out on those bits below.
\<close>

type_synonym count = "64 word"
type_synonym integer = "64 word"
type_synonym real_bits = "64 word"

text \<open>The tags, in the order of the variant's alternatives.\<close>

datatype variant_tag =
    tag_none | tag_boolean | tag_count | tag_integer | tag_real | tag_string
  | tag_address | tag_subnet | tag_port | tag_timestamp | tag_timespan
  | tag_enum_value | tag_set | tag_table | tag_vector

text \<open>
  The view value. A \<open>std::string_view\<close> is the list of its bytes; the three container
  alternatives are pointers to arena-allocated collections, modelled by the collection's
  elements in iteration order (a \<open>std::set\<close> and a \<open>std::map\<close> iterate in the order of
  \<open>operator<\<close>). A \<open>variant_data::list\<close> is a \<open>std::vector\<close>; its second field is the
  vector's capacity, which no comparison reads.
\<close>

text \<open>
  Modelled from the spec: the payloads \<open>address\<close>, \<open>subnet\<close> and \<open>port\<close>, whose classes are
  declared outside the files at hand. An address is 128 bits, a subnet an address and
  a prefix length, a port a 16-bit number and a protocol tag; each is compared field by
  field (its "natural order").
\<close>

datatype variant_data =
    vd_none
  | vd_boolean bool
  | vd_count count
  | vd_integer integer
  | vd_real real_bits
  | vd_string string
  | vd_address "128 word"
  | vd_subnet "128 word" "8 word"
  | vd_port "16 word" "8 word"
  | vd_timestamp "64 word"
  | vd_timespan "64 word"
  | vd_enum_value string
  | vd_set "variant_data list"
  | vd_table "(variant_data \<times> variant_data) list"
  | vd_list "variant_data list" nat

text \<open>\<open>value.index()\<close>: the position of the active alternative.\<close>

fun index :: "variant_data \<Rightarrow> nat" where
  "index vd_none = 0"
| "index (vd_boolean _) = 1"
| "index (vd_count _) = 2"
| "index (vd_integer _) = 3"
| "index (vd_real _) = 4"
| "index (vd_string _) = 5"
| "index (vd_address _) = 6"
| "index (vd_subnet _ _) = 7"
| "index (vd_port _ _) = 8"
| "index (vd_timestamp _) = 9"
| "index (vd_timespan _) = 10"
| "index (vd_enum_value _) = 11"
| "index (vd_set _) = 12"
| "index (vd_table _) = 13"
| "index (vd_list _ _) = 14"

fun get_tag :: "variant_data \<Rightarrow> variant_tag" where
  "get_tag vd_none = tag_none"
| "get_tag (vd_boolean _) = tag_boolean"
| "get_tag (vd_count _) = tag_count"
| "get_tag (vd_integer _) = tag_integer"
| "get_tag (vd_real _) = tag_real"
| "get_tag (vd_string _) = tag_string"
| "get_tag (vd_address _) = tag_address"
| "get_tag (vd_subnet _ _) = tag_subnet"
| "get_tag (vd_port _ _) = tag_port"
| "get_tag (vd_timestamp _) = tag_timestamp"
| "get_tag (vd_timespan _) = tag_timespan"
| "get_tag (vd_enum_value _) = tag_enum_value"
| "get_tag (vd_set _) = tag_set"
| "get_tag (vd_table _) = tag_table"
| "get_tag (vd_list _ _) = tag_vector"

subsection \<open>Comparing the payloads\<close>

text \<open>
  \<open>double\<close>: a NaN has all exponent bits set and a non-zero fraction; it is neither equal
  to nor less than anything, itself included. The two zeros are equal. Otherwise the
  sign decides, and among equal signs the magnitude.
\<close>

definition real_magnitude :: "real_bits \<Rightarrow> 64 word" where
  "real_magnitude w = w AND 0x7FFFFFFFFFFFFFFF"

definition real_negative :: "real_bits \<Rightarrow> bool" where
  "real_negative w = (w AND 0x8000000000000000 \<noteq> 0)"

definition real_is_nan :: "real_bits \<Rightarrow> bool" where
  "real_is_nan w = (0x7FF0000000000000 < real_magnitude w)"

definition real_eq :: "real_bits \<Rightarrow> real_bits \<Rightarrow> bool" where
  "real_eq a b =
     (\<not> real_is_nan a \<and> \<not> real_is_nan b \<and>
      (a = b \<or> (real_magnitude a = 0 \<and> real_magnitude b = 0)))"

definition real_less :: "real_bits \<Rightarrow> real_bits \<Rightarrow> bool" where
  "real_less a b =
     (\<not> real_is_nan a \<and> \<not> real_is_nan b \<and>
      (if real_negative a \<and> \<not> real_negative b
         then \<not> (real_magnitude a = 0 \<and> real_magnitude b = 0)
       else if \<not> real_negative a \<and> real_negative b then False
       else if real_negative a then real_magnitude b < real_magnitude a
       else real_magnitude a < real_magnitude b))"

text \<open>
  What the 64 bits denote: the sign is bit 63, the biased exponent \<open>e\<close> the next 11 bits
  and the fraction \<open>f\<close> the low 52 bits. A NaN has \<open>e = 2047\<close> and \<open>f \<noteq> 0\<close>. Any other
  pattern denotes, up to the sign, \<open>(2^52 + f) * 2^(e - 1075)\<close> for \<open>e > 0\<close> and
  \<open>f * 2^(-1074)\<close> for \<open>e = 0\<close>. \<open>real_value\<close> is that number times \<open>2^1075\<close>, an
  integer; an infinity (\<open>e = 2047\<close>, \<open>f = 0\<close>) comes out beyond every finite value. The
  comparisons of \<open>double\<close> are the comparisons of these numbers, and false where a NaN
  takes part.
\<close>

definition real_exponent :: "real_bits \<Rightarrow> nat" where
  "real_exponent w = unat (drop_bit 52 w AND 0x7FF)"

definition real_fraction :: "real_bits \<Rightarrow> nat" where
  "real_fraction w = unat (w AND 0xFFFFFFFFFFFFF)"

definition scaled_magnitude :: "real_bits \<Rightarrow> nat" where
  "scaled_magnitude w =
     (if real_exponent w = 0 then 2 * real_fraction w
      else (2 ^ 52 + real_fraction w) * 2 ^ real_exponent w)"

definition real_value :: "real_bits \<Rightarrow> int" where
  "real_value w = (if bit w 63 then - int (scaled_magnitude w) else int (scaled_magnitude w))"

text \<open>
  \<open>std::string_view\<close> compares with \<open>char_traits<char>::compare\<close>: byte by byte as
  unsigned values, a proper prefix being less.
\<close>

fun string_less :: "string \<Rightarrow> string \<Rightarrow> bool" where
  "string_less [] [] = False"
| "string_less [] (y # ys) = True"
| "string_less (x # xs) [] = False"
| "string_less (x # xs) (y # ys) =
     (if (of_char x :: nat) < of_char y then True
      else if (of_char y :: nat) < of_char x then False
      else string_less xs ys)"

subsection \<open>\<open>operator<(const variant_data&, const variant_data&)\<close>\<close>

text \<open>
  Different alternatives compare by index. For one alternative \<open>std::visit\<close> takes the
  payload \<open>x\<close> of \<open>lhs\<close> and compares it with \<open>std::get<T>(rhs.value)\<close>, through the pointer
  for the three containers. \<open>std::get\<close> would throw on another alternative; the guard on
  the index makes that branch unreachable, and it is \<open>False\<close> here.

  A container compares with \<open>std::lexicographical_compare\<close> (\<open>less_range\<close>), which asks
  \<open>*first1 < *first2\<close> and then \<open>*first2 < *first1\<close>; the elements of a table are pairs,
  compared as \<open>std::pair\<close> does.
\<close>

function variant_less :: "variant_data \<Rightarrow> variant_data \<Rightarrow> bool"
  and less_range :: "variant_data list \<Rightarrow> variant_data list \<Rightarrow> bool"
  and less_pair :: "variant_data \<times> variant_data \<Rightarrow> variant_data \<times> variant_data \<Rightarrow> bool"
  and less_pairs :: "(variant_data \<times> variant_data) list \<Rightarrow> (variant_data \<times> variant_data) list \<Rightarrow> bool"
where
  "variant_less vd_none rhs =
     (if index vd_none \<noteq> index rhs then index vd_none < index rhs else False)"
| "variant_less (vd_boolean x) rhs =
     (if index (vd_boolean x) \<noteq> index rhs then index (vd_boolean x) < index rhs
      else (case rhs of vd_boolean y \<Rightarrow> x < y | _ \<Rightarrow> False))"
| "variant_less (vd_count x) rhs =
     (if index (vd_count x) \<noteq> index rhs then index (vd_count x) < index rhs
      else (case rhs of vd_count y \<Rightarrow> unat x < unat y | _ \<Rightarrow> False))"
| "variant_less (vd_integer x) rhs =
     (if index (vd_integer x) \<noteq> index rhs then index (vd_integer x) < index rhs
      else (case rhs of vd_integer y \<Rightarrow> sint x < sint y | _ \<Rightarrow> False))"
| "variant_less (vd_real x) rhs =
     (if index (vd_real x) \<noteq> index rhs then index (vd_real x) < index rhs
      else (case rhs of vd_real y \<Rightarrow> real_less x y | _ \<Rightarrow> False))"
| "variant_less (vd_string x) rhs =
     (if index (vd_string x) \<noteq> index rhs then index (vd_string x) < index rhs
      else (case rhs of vd_string y \<Rightarrow> string_less x y | _ \<Rightarrow> False))"
| "variant_less (vd_address x) rhs =
     (if index (vd_address x) \<noteq> index rhs then index (vd_address x) < index rhs
      else (case rhs of vd_address y \<Rightarrow> unat x < unat y | _ \<Rightarrow> False))"
| "variant_less (vd_subnet x l) rhs =
     (if index (vd_subnet x l) \<noteq> index rhs then index (vd_subnet x l) < index rhs
      else (case rhs of
              vd_subnet y m \<Rightarrow> unat x < unat y \<or> (x = y \<and> unat l < unat m)
            | _ \<Rightarrow> False))"
| "variant_less (vd_port x p) rhs =
     (if index (vd_port x p) \<noteq> index rhs then index (vd_port x p) < index rhs
      else (case rhs of
              vd_port y q \<Rightarrow> unat x < unat y \<or> (x = y \<and> unat p < unat q)
            | _ \<Rightarrow> False))"
| "variant_less (vd_timestamp x) rhs =
     (if index (vd_timestamp x) \<noteq> index rhs then index (vd_timestamp x) < index rhs
      else (case rhs of vd_timestamp y \<Rightarrow> sint x < sint y | _ \<Rightarrow> False))"
| "variant_less (vd_timespan x) rhs =
     (if index (vd_timespan x) \<noteq> index rhs then index (vd_timespan x) < index rhs
      else (case rhs of vd_timespan y \<Rightarrow> sint x < sint y | _ \<Rightarrow> False))"
| "variant_less (vd_enum_value x) rhs =
     (if index (vd_enum_value x) \<noteq> index rhs then index (vd_enum_value x) < index rhs
      else (case rhs of vd_enum_value y \<Rightarrow> string_less x y | _ \<Rightarrow> False))"
| "variant_less (vd_set xs) rhs =
     (if index (vd_set xs) \<noteq> index rhs then index (vd_set xs) < index rhs
      else (case rhs of vd_set ys \<Rightarrow> less_range xs ys | _ \<Rightarrow> False))"
| "variant_less (vd_table xs) rhs =
     (if index (vd_table xs) \<noteq> index rhs then index (vd_table xs) < index rhs
      else (case rhs of vd_table ys \<Rightarrow> less_pairs xs ys | _ \<Rightarrow> False))"
| "variant_less (vd_list xs c) rhs =
     (if index (vd_list xs c) \<noteq> index rhs then index (vd_list xs c) < index rhs
      else (case rhs of vd_list ys d \<Rightarrow> less_range xs ys | _ \<Rightarrow> False))"
| "less_range [] [] = False"
| "less_range [] (y # ys) = True"
| "less_range (x # xs) [] = False"
| "less_range (x # xs) (y # ys) =
     (if variant_less x y then True
      else if variant_less y x then False
      else less_range xs ys)"
| "less_pair (a, b) (c, d) =
     (variant_less a c \<or> (\<not> variant_less c a \<and> variant_less b d))"
| "less_pairs [] [] = False"
| "less_pairs [] (y # ys) = True"
| "less_pairs (x # xs) [] = False"
| "less_pairs (x # xs) (y # ys) =
     (if less_pair x y then True
      else if less_pair y x then False
      else less_pairs xs ys)"
  by pat_completeness auto
termination
  by (relation "measure (\<lambda>v. case v of
        Inl (Inl (a, b)) \<Rightarrow> size a + size b
      | Inl (Inr (xs, ys)) \<Rightarrow> size_list size xs + size_list size ys
      | Inr (Inl ((a, b), (c, d))) \<Rightarrow> size a + size b + size c + size d + 1
      | Inr (Inr (xs, ys)) \<Rightarrow>
          size_list (size_prod size size) xs + size_list (size_prod size size) ys)")
    auto


subsection \<open>\<open>eq_predicate\<close> and \<open>visit_if_same_type\<close>\<close>

text \<open>
  \<open>std::equal\<close> over two ranges with a predicate: the ranges have the same length and the
  predicate holds at every position.
\<close>

fun std_equal :: "('a \<Rightarrow> 'b \<Rightarrow> bool) \<Rightarrow> 'a list \<Rightarrow> 'b list \<Rightarrow> bool" where
  "std_equal pred [] [] = True"
| "std_equal pred [] (y # ys) = False"
| "std_equal pred (x # xs) [] = False"
| "std_equal pred (x # xs) (y # ys) = (pred x y \<and> std_equal pred xs ys)"

text \<open>
  \<open>operator==(const variant_data&, const variant_data&)\<close> is
  \<open>visit_if_same_type(eq_predicate{}, lhs, rhs)\<close>. For different tags it returns
  \<open>pred(lhs_type, rhs_type)\<close>, the comparison of the two tags themselves. For one tag,
  \<open>eq_predicate\<close> looks through a pointer, walks a range with \<open>std::equal\<close> (a string is a
  range of bytes), takes a pair apart, and otherwise uses the payload's \<open>==\<close>.
\<close>

function variant_eq :: "variant_data \<Rightarrow> variant_data \<Rightarrow> bool"
  and equal_range :: "variant_data list \<Rightarrow> variant_data list \<Rightarrow> bool"
  and equal_pair :: "variant_data \<times> variant_data \<Rightarrow> variant_data \<times> variant_data \<Rightarrow> bool"
  and equal_pairs :: "(variant_data \<times> variant_data) list \<Rightarrow> (variant_data \<times> variant_data) list \<Rightarrow> bool"
where
  "variant_eq vd_none rhs =
     (if get_tag vd_none \<noteq> get_tag rhs then get_tag vd_none = get_tag rhs else True)"
| "variant_eq (vd_boolean x) rhs =
     (if get_tag (vd_boolean x) \<noteq> get_tag rhs then get_tag (vd_boolean x) = get_tag rhs
      else (case rhs of vd_boolean y \<Rightarrow> x = y | _ \<Rightarrow> False))"
| "variant_eq (vd_count x) rhs =
     (if get_tag (vd_count x) \<noteq> get_tag rhs then get_tag (vd_count x) = get_tag rhs
      else (case rhs of vd_count y \<Rightarrow> x = y | _ \<Rightarrow> False))"
| "variant_eq (vd_integer x) rhs =
     (if get_tag (vd_integer x) \<noteq> get_tag rhs then get_tag (vd_integer x) = get_tag rhs
      else (case rhs of vd_integer y \<Rightarrow> x = y | _ \<Rightarrow> False))"
| "variant_eq (vd_real x) rhs =
     (if get_tag (vd_real x) \<noteq> get_tag rhs then get_tag (vd_real x) = get_tag rhs
      else (case rhs of vd_real y \<Rightarrow> real_eq x y | _ \<Rightarrow> False))"
| "variant_eq (vd_string x) rhs =
     (if get_tag (vd_string x) \<noteq> get_tag rhs then get_tag (vd_string x) = get_tag rhs
      else (case rhs of vd_string y \<Rightarrow> std_equal (=) x y | _ \<Rightarrow> False))"
| "variant_eq (vd_address x) rhs =
     (if get_tag (vd_address x) \<noteq> get_tag rhs then get_tag (vd_address x) = get_tag rhs
      else (case rhs of vd_address y \<Rightarrow> x = y | _ \<Rightarrow> False))"
| "variant_eq (vd_subnet x l) rhs =
     (if get_tag (vd_subnet x l) \<noteq> get_tag rhs then get_tag (vd_subnet x l) = get_tag rhs
      else (case rhs of vd_subnet y m \<Rightarrow> x = y \<and> l = m | _ \<Rightarrow> False))"
| "variant_eq (vd_port x p) rhs =
     (if get_tag (vd_port x p) \<noteq> get_tag rhs then get_tag (vd_port x p) = get_tag rhs
      else (case rhs of vd_port y q \<Rightarrow> x = y \<and> p = q | _ \<Rightarrow> False))"
| "variant_eq (vd_timestamp x) rhs =
     (if get_tag (vd_timestamp x) \<noteq> get_tag rhs then get_tag (vd_timestamp x) = get_tag rhs
      else (case rhs of vd_timestamp y \<Rightarrow> x = y | _ \<Rightarrow> False))"
| "variant_eq (vd_timespan x) rhs =
     (if get_tag (vd_timespan x) \<noteq> get_tag rhs then get_tag (vd_timespan x) = get_tag rhs
      else (case rhs of vd_timespan y \<Rightarrow> x = y | _ \<Rightarrow> False))"
| "variant_eq (vd_enum_value x) rhs =
     (if get_tag (vd_enum_value x) \<noteq> get_tag rhs then get_tag (vd_enum_value x) = get_tag rhs
      else (case rhs of vd_enum_value y \<Rightarrow> x = y | _ \<Rightarrow> False))"
| "variant_eq (vd_set xs) rhs =
     (if get_tag (vd_set xs) \<noteq> get_tag rhs then get_tag (vd_set xs) = get_tag rhs
      else (case rhs of vd_set ys \<Rightarrow> equal_range xs ys | _ \<Rightarrow> False))"
| "variant_eq (vd_table xs) rhs =
     (if get_tag (vd_table xs) \<noteq> get_tag rhs then get_tag (vd_table xs) = get_tag rhs
      else (case rhs of vd_table ys \<Rightarrow> equal_pairs xs ys | _ \<Rightarrow> False))"
| "variant_eq (vd_list xs c) rhs =
     (if get_tag (vd_list xs c) \<noteq> get_tag rhs then get_tag (vd_list xs c) = get_tag rhs
      else (case rhs of vd_list ys d \<Rightarrow> equal_range xs ys | _ \<Rightarrow> False))"
| "equal_range [] [] = True"
| "equal_range [] (y # ys) = False"
| "equal_range (x # xs) [] = False"
| "equal_range (x # xs) (y # ys) = (variant_eq x y \<and> equal_range xs ys)"
| "equal_pair (a, b) (c, d) = (variant_eq a c \<and> variant_eq b d)"
| "equal_pairs [] [] = True"
| "equal_pairs [] (y # ys) = False"
| "equal_pairs (x # xs) [] = False"
| "equal_pairs (x # xs) (y # ys) = (equal_pair x y \<and> equal_pairs xs ys)"
  by pat_completeness auto
termination
  by (relation "measure (\<lambda>v. case v of
        Inl (Inl (a, b)) \<Rightarrow> size a
      | Inl (Inr (xs, ys)) \<Rightarrow> size_list size xs
      | Inr (Inl ((a, b), (c, d))) \<Rightarrow> size a + size b + 1
      | Inr (Inr (xs, ys)) \<Rightarrow> size_list (size_prod size size) xs)")
    auto

subsection \<open>The owning value \<open>data\<close>\<close>

text \<open>
  \<open>broker::data\<close> holds the same alternatives with owning payloads: \<open>std::string\<close>,
  \<open>broker::set = std::set<data>\<close>, \<open>broker::table = std::map<data, data>\<close> and
  \<open>broker::vector = std::vector<data>\<close> (again with its capacity).
\<close>

datatype data =
    d_none
  | d_boolean bool
  | d_count count
  | d_integer integer
  | d_real real_bits
  | d_string string
  | d_address "128 word"
  | d_subnet "128 word" "8 word"
  | d_port "16 word" "8 word"
  | d_timestamp "64 word"
  | d_timespan "64 word"
  | d_enum_value string
  | d_set "data list"
  | d_table "(data \<times> data) list"
  | d_vector "data list" nat

fun data_index :: "data \<Rightarrow> nat" where
  "data_index d_none = 0"
| "data_index (d_boolean _) = 1"
| "data_index (d_count _) = 2"
| "data_index (d_integer _) = 3"
| "data_index (d_real _) = 4"
| "data_index (d_string _) = 5"
| "data_index (d_address _) = 6"
| "data_index (d_subnet _ _) = 7"
| "data_index (d_port _ _) = 8"
| "data_index (d_timestamp _) = 9"
| "data_index (d_timespan _) = 10"
| "data_index (d_enum_value _) = 11"
| "data_index (d_set _) = 12"
| "data_index (d_table _) = 13"
| "data_index (d_vector _ _) = 14"

fun data_get_tag :: "data \<Rightarrow> variant_tag" where
  "data_get_tag d_none = tag_none"
| "data_get_tag (d_boolean _) = tag_boolean"
| "data_get_tag (d_count _) = tag_count"
| "data_get_tag (d_integer _) = tag_integer"
| "data_get_tag (d_real _) = tag_real"
| "data_get_tag (d_string _) = tag_string"
| "data_get_tag (d_address _) = tag_address"
| "data_get_tag (d_subnet _ _) = tag_subnet"
| "data_get_tag (d_port _ _) = tag_port"
| "data_get_tag (d_timestamp _) = tag_timestamp"
| "data_get_tag (d_timespan _) = tag_timespan"
| "data_get_tag (d_enum_value _) = tag_enum_value"
| "data_get_tag (d_set _) = tag_set"
| "data_get_tag (d_table _) = tag_table"
| "data_get_tag (d_vector _ _) = tag_vector"

text \<open>
  Modelled from the spec: \<open>operator<\<close> on \<open>data\<close>, the order in which a \<open>broker::set\<close> and
  a \<open>broker::table\<close> keep their elements; \<^verbatim>\<open>data.hh\<close> is not among the files at hand.
  The spec: "Value order is defined first by tag index, then by payload natural order;
  set/table iteration follows this order."
\<close>

function data_less :: "data \<Rightarrow> data \<Rightarrow> bool"
  and data_less_range :: "data list \<Rightarrow> data list \<Rightarrow> bool"
  and data_less_pair :: "data \<times> data \<Rightarrow> data \<times> data \<Rightarrow> bool"
  and data_less_pairs :: "(data \<times> data) list \<Rightarrow> (data \<times> data) list \<Rightarrow> bool"
where
  "data_less d_none rhs =
     (if data_index d_none \<noteq> data_index rhs then data_index d_none < data_index rhs else False)"
| "data_less (d_boolean x) rhs =
     (if data_index (d_boolean x) \<noteq> data_index rhs then data_index (d_boolean x) < data_index rhs
      else (case rhs of d_boolean y \<Rightarrow> x < y | _ \<Rightarrow> False))"
| "data_less (d_count x) rhs =
     (if data_index (d_count x) \<noteq> data_index rhs then data_index (d_count x) < data_index rhs
      else (case rhs of d_count y \<Rightarrow> unat x < unat y | _ \<Rightarrow> False))"
| "data_less (d_integer x) rhs =
     (if data_index (d_integer x) \<noteq> data_index rhs then data_index (d_integer x) < data_index rhs
      else (case rhs of d_integer y \<Rightarrow> sint x < sint y | _ \<Rightarrow> False))"
| "data_less (d_real x) rhs =
     (if data_index (d_real x) \<noteq> data_index rhs then data_index (d_real x) < data_index rhs
      else (case rhs of d_real y \<Rightarrow> real_less x y | _ \<Rightarrow> False))"
| "data_less (d_string x) rhs =
     (if data_index (d_string x) \<noteq> data_index rhs then data_index (d_string x) < data_index rhs
      else (case rhs of d_string y \<Rightarrow> string_less x y | _ \<Rightarrow> False))"
| "data_less (d_address x) rhs =
     (if data_index (d_address x) \<noteq> data_index rhs then data_index (d_address x) < data_index rhs
      else (case rhs of d_address y \<Rightarrow> unat x < unat y | _ \<Rightarrow> False))"
| "data_less (d_subnet x l) rhs =
     (if data_index (d_subnet x l) \<noteq> data_index rhs then data_index (d_subnet x l) < data_index rhs
      else (case rhs of d_subnet y m \<Rightarrow> unat x < unat y \<or> (x = y \<and> unat l < unat m) | _ \<Rightarrow> False))"
| "data_less (d_port x p) rhs =
     (if data_index (d_port x p) \<noteq> data_index rhs then data_index (d_port x p) < data_index rhs
      else (case rhs of d_port y q \<Rightarrow> unat x < unat y \<or> (x = y \<and> unat p < unat q) | _ \<Rightarrow> False))"
| "data_less (d_timestamp x) rhs =
     (if data_index (d_timestamp x) \<noteq> data_index rhs then data_index (d_timestamp x) < data_index rhs
      else (case rhs of d_timestamp y \<Rightarrow> sint x < sint y | _ \<Rightarrow> False))"
| "data_less (d_timespan x) rhs =
     (if data_index (d_timespan x) \<noteq> data_index rhs then data_index (d_timespan x) < data_index rhs
      else (case rhs of d_timespan y \<Rightarrow> sint x < sint y | _ \<Rightarrow> False))"
| "data_less (d_enum_value x) rhs =
     (if data_index (d_enum_value x) \<noteq> data_index rhs then data_index (d_enum_value x) < data_index rhs
      else (case rhs of d_enum_value y \<Rightarrow> string_less x y | _ \<Rightarrow> False))"
| "data_less (d_set xs) rhs =
     (if data_index (d_set xs) \<noteq> data_index rhs then data_index (d_set xs) < data_index rhs
      else (case rhs of d_set ys \<Rightarrow> data_less_range xs ys | _ \<Rightarrow> False))"
| "data_less (d_table xs) rhs =
     (if data_index (d_table xs) \<noteq> data_index rhs then data_index (d_table xs) < data_index rhs
      else (case rhs of d_table ys \<Rightarrow> data_less_pairs xs ys | _ \<Rightarrow> False))"
| "data_less (d_vector xs c) rhs =
     (if data_index (d_vector xs c) \<noteq> data_index rhs then data_index (d_vector xs c) < data_index rhs
      else (case rhs of d_vector ys d \<Rightarrow> data_less_range xs ys | _ \<Rightarrow> False))"
| "data_less_range [] [] = False"
| "data_less_range [] (y # ys) = True"
| "data_less_range (x # xs) [] = False"
| "data_less_range (x # xs) (y # ys) =
     (if data_less x y then True
      else if data_less y x then False
      else data_less_range xs ys)"
| "data_less_pair (a, b) (c, d) =
     (data_less a c \<or> (\<not> data_less c a \<and> data_less b d))"
| "data_less_pairs [] [] = False"
| "data_less_pairs [] (y # ys) = True"
| "data_less_pairs (x # xs) [] = False"
| "data_less_pairs (x # xs) (y # ys) =
     (if data_less_pair x y then True
      else if data_less_pair y x then False
      else data_less_pairs xs ys)"
  by pat_completeness auto
termination
  by (relation "measure (\<lambda>v. case v of
        Inl (Inl (a, b)) \<Rightarrow> size a + size b
      | Inl (Inr (xs, ys)) \<Rightarrow> size_list size xs + size_list size ys
      | Inr (Inl ((a, b), (c, d))) \<Rightarrow> size a + size b + size c + size d + 1
      | Inr (Inr (xs, ys)) \<Rightarrow>
          size_list (size_prod size size) xs + size_list (size_prod size size) ys)")
    auto

subsection \<open>\<open>std::set\<close> and \<open>std::map\<close>\<close>

text \<open>
  \<open>broker::set\<close> is \<open>std::set<data>\<close> and \<open>broker::table\<close> is \<open>std::map<data, data>\<close>.
  Both are the red-black tree of the C++ library (\<open>_Rb_tree\<close> in libstdc++), which is
  iterated in order: left subtree, node, right subtree.
\<close>

datatype rb_color = rb_red | rb_black

datatype 'a rb_tree = rb_leaf | rb_node rb_color "'a rb_tree" 'a "'a rb_tree"

fun inorder :: "'a rb_tree \<Rightarrow> 'a list" where
  "inorder rb_leaf = []"
| "inorder (rb_node c l e r) = inorder l @ e # inorder r"

text \<open>
  \<open>_M_get_insert_unique_pos(k)\<close> walks down from the root, to the left where \<open>k\<close> is less
  than the node's key and to the right otherwise, until it falls off the tree. The
  candidate \<open>j\<close> for an equivalent key is the node before that place in iteration order:
  the last node at which the walk went right (\<open>j = y\<close>, or \<open>--j\<close> after a last step to the
  left). Without such a node (\<open>j == begin()\<close>) the key is new; with one, it is new iff
  \<open>key(j) < k\<close>. The last argument carries \<open>j\<close>; the result tells whether to insert.
\<close>

fun get_insert_unique_pos ::
  "('a \<Rightarrow> 'a \<Rightarrow> bool) \<Rightarrow> 'a \<Rightarrow> 'a rb_tree \<Rightarrow> 'a option \<Rightarrow> bool" where
  "get_insert_unique_pos key_compare k rb_leaf j =
     (case j of None \<Rightarrow> True | Some e \<Rightarrow> key_compare e k)"
| "get_insert_unique_pos key_compare k (rb_node c l e r) j =
     (if key_compare k e then get_insert_unique_pos key_compare k l j
      else get_insert_unique_pos key_compare k r (Some e))"

text \<open>
  \<open>_Rb_tree_insert_and_rebalance\<close> links the new node \<open>x\<close> in, red, at the place the walk
  ended, and then runs its loop \<open>while (x != root && x->parent->color == red)\<close>. The
  model goes down the same path and runs the loop on the way back up; \<open>rebalance\<close> says
  where the loop stands in the subtree handed back: it is over (\<open>finished\<close>), or \<open>x\<close> is
  the root of the subtree (\<open>x_is_root\<close>), or \<open>x\<close> is the left or the right child of the
  subtree's root and that root, the parent of \<open>x\<close>, is red (\<open>x_is_left\<close>, \<open>x_is_right\<close>).
\<close>

datatype rebalance = finished | x_is_root | x_is_left | x_is_right

fun rb_paint :: "rb_color \<Rightarrow> 'a rb_tree \<Rightarrow> 'a rb_tree" where
  "rb_paint c rb_leaf = rb_leaf"
| "rb_paint c (rb_node _ l e r) = rb_node c l e r"

text \<open>\<open>y && y->color == red\<close>: a null pointer counts as black.\<close>

fun is_red :: "'a rb_tree \<Rightarrow> bool" where
  "is_red (rb_node rb_red _ _ _) = True"
| "is_red _ = False"

text \<open>
  One round of the loop at the node \<open>xpp\<close> with colour \<open>c\<close>, key \<open>e\<close> and subtrees \<open>l\<close> and
  \<open>r\<close>, where the parent of \<open>x\<close> is \<open>xpp->left\<close>. A red uncle \<open>y = xpp->right\<close>: parent and
  uncle turn black, \<open>xpp\<close> red, and the loop goes on with \<open>x = xpp\<close>. Otherwise: if \<open>x\<close> is a
  right child, \<open>x = x->parent\<close> and a left rotation about \<open>x\<close>; then the parent of \<open>x\<close>
  turns black, \<open>xpp\<close> red, a right rotation about \<open>xpp\<close>, and the loop is over.
\<close>

definition rebalance_left ::
  "rb_color \<Rightarrow> 'a rb_tree \<Rightarrow> 'a \<Rightarrow> 'a rb_tree \<Rightarrow> rebalance \<Rightarrow> 'a rb_tree \<times> rebalance" where
  "rebalance_left c l e r s =
     (case s of
        finished \<Rightarrow> (rb_node c l e r, finished)
      | x_is_root \<Rightarrow> (rb_node c l e r, if c = rb_red then x_is_left else finished)
      | x_is_left \<Rightarrow>
          (if is_red r
           then (rb_node rb_red (rb_paint rb_black l) e (rb_paint rb_black r), x_is_root)
           else (case l of
                   rb_node pc x pe pr \<Rightarrow>
                     (rb_node rb_black x pe (rb_node rb_red pr e r), finished)
                 | rb_leaf \<Rightarrow> (rb_node c l e r, finished)))
      | x_is_right \<Rightarrow>
          (if is_red r
           then (rb_node rb_red (rb_paint rb_black l) e (rb_paint rb_black r), x_is_root)
           else (case l of
                   rb_node pc pl pe (rb_node xc xl xe xr) \<Rightarrow>
                     (rb_node rb_black (rb_node pc pl pe xl) xe (rb_node rb_red xr e r),
                      finished)
                 | _ \<Rightarrow> (rb_node c l e r, finished))))"

text \<open>The mirror image, where the parent of \<open>x\<close> is \<open>xpp->right\<close>.\<close>

definition rebalance_right ::
  "rb_color \<Rightarrow> 'a rb_tree \<Rightarrow> 'a \<Rightarrow> 'a rb_tree \<Rightarrow> rebalance \<Rightarrow> 'a rb_tree \<times> rebalance" where
  "rebalance_right c l e r s =
     (case s of
        finished \<Rightarrow> (rb_node c l e r, finished)
      | x_is_root \<Rightarrow> (rb_node c l e r, if c = rb_red then x_is_right else finished)
      | x_is_right \<Rightarrow>
          (if is_red l
           then (rb_node rb_red (rb_paint rb_black l) e (rb_paint rb_black r), x_is_root)
           else (case r of
                   rb_node pc pl pe x \<Rightarrow>
                     (rb_node rb_black (rb_node rb_red l e pl) pe x, finished)
                 | rb_leaf \<Rightarrow> (rb_node c l e r, finished)))
      | x_is_left \<Rightarrow>
          (if is_red l
           then (rb_node rb_red (rb_paint rb_black l) e (rb_paint rb_black r), x_is_root)
           else (case r of
                   rb_node pc (rb_node xc xl xe xr) pe pr \<Rightarrow>
                     (rb_node rb_black (rb_node rb_red l e xl) xe (rb_node pc xr pe pr),
                      finished)
                 | _ \<Rightarrow> (rb_node c l e r, finished))))"

fun insert_and_rebalance ::
  "('a \<Rightarrow> 'a \<Rightarrow> bool) \<Rightarrow> 'a \<Rightarrow> 'a rb_tree \<Rightarrow> 'a rb_tree \<times> rebalance" where
  "insert_and_rebalance key_compare k rb_leaf = (rb_node rb_red rb_leaf k rb_leaf, x_is_root)"
| "insert_and_rebalance key_compare k (rb_node c l e r) =
     (if key_compare k e
      then (case insert_and_rebalance key_compare k l of (l', s) \<Rightarrow> rebalance_left c l' e r s)
      else (case insert_and_rebalance key_compare k r of (r', s) \<Rightarrow> rebalance_right c l e r' s))"

text \<open>
  \<open>emplace\<close> (\<open>_M_emplace_unique\<close>): the node is linked in unless an equivalent key is
  there; after the loop, \<open>root->color = black\<close>.
\<close>

definition emplace_unique :: "('a \<Rightarrow> 'a \<Rightarrow> bool) \<Rightarrow> 'a \<Rightarrow> 'a rb_tree \<Rightarrow> 'a rb_tree" where
  "emplace_unique key_compare k t =
     (if get_insert_unique_pos key_compare k t None
      then rb_paint rb_black (fst (insert_and_rebalance key_compare k t))
      else t)"

text \<open>
  A \<open>broker::set\<close> compares its elements with \<open>operator<\<close> on \<open>data\<close>, a \<open>broker::table\<close>
  the keys of its \<open>(key, value)\<close> pairs.
\<close>

definition set_emplace :: "data \<Rightarrow> data rb_tree \<Rightarrow> data rb_tree" where
  "set_emplace x result = emplace_unique data_less x result"

definition table_emplace :: "data \<Rightarrow> data \<Rightarrow> (data \<times> data) rb_tree \<Rightarrow> (data \<times> data) rb_tree" where
  "table_emplace k v result = emplace_unique (\<lambda>a b. data_less (fst a) (fst b)) (k, v) result"



subsection \<open>\<open>variant_data::to_data\<close>\<close>

text \<open>
  The visitor copies a string view into a \<open>std::string\<close>, an enum name likewise, and
  builds each container by converting the elements in iteration order: \<open>emplace\<close> into a
  fresh \<open>broker::set\<close> or \<open>broker::table\<close>, and \<open>emplace_back\<close> into a \<open>broker::vector\<close>
  after \<open>reserve(val->size())\<close>. The three loops carry \<open>result\<close> as their second argument.
\<close>

function to_data :: "variant_data \<Rightarrow> data"
  and to_data_set :: "variant_data list \<Rightarrow> data rb_tree \<Rightarrow> data rb_tree"
  and to_data_table ::
    "(variant_data \<times> variant_data) list \<Rightarrow> (data \<times> data) rb_tree \<Rightarrow> (data \<times> data) rb_tree"
  and to_data_list :: "variant_data list \<Rightarrow> data list \<Rightarrow> data list"
where
  "to_data vd_none = d_none"
| "to_data (vd_boolean x) = d_boolean x"
| "to_data (vd_count x) = d_count x"
| "to_data (vd_integer x) = d_integer x"
| "to_data (vd_real x) = d_real x"
| "to_data (vd_string x) = d_string x"
| "to_data (vd_address x) = d_address x"
| "to_data (vd_subnet x l) = d_subnet x l"
| "to_data (vd_port x p) = d_port x p"
| "to_data (vd_timestamp x) = d_timestamp x"
| "to_data (vd_timespan x) = d_timespan x"
| "to_data (vd_enum_value x) = d_enum_value x"
| "to_data (vd_set xs) = d_set (inorder (to_data_set xs rb_leaf))"
| "to_data (vd_table xs) = d_table (inorder (to_data_table xs rb_leaf))"
| "to_data (vd_list xs c) = d_vector (to_data_list xs []) (length xs)"
| "to_data_set [] result = result"
| "to_data_set (x # xs) result = to_data_set xs (set_emplace (to_data x) result)"
| "to_data_table [] result = result"
| "to_data_table ((key, val) # xs) result =
     to_data_table xs (table_emplace (to_data key) (to_data val) result)"
| "to_data_list [] result = result"
| "to_data_list (x # xs) result = to_data_list xs (result @ [to_data x])"
  by pat_completeness auto
termination
  by (relation "measure (\<lambda>v. case v of
        Inl (Inl a) \<Rightarrow> size a
      | Inl (Inr (xs, r)) \<Rightarrow> size_list size xs
      | Inr (Inl (xs, r)) \<Rightarrow> size_list (size_prod size size) xs
      | Inr (Inr (xs, r)) \<Rightarrow> size_list size xs)")
    auto

subsection \<open>\<open>operator==(const data&, const variant_data&)\<close>\<close>


subsection \<open>The values \<open>to_data\<close> is applied to\<close>



text \<open>
  The conversion without the insertions: every container keeps its elements in place.
  The proofs below compare \<open>to_data\<close> with it.
\<close>

fun same_shape :: "variant_data \<Rightarrow> data" where
  "same_shape vd_none = d_none"
| "same_shape (vd_boolean x) = d_boolean x"
| "same_shape (vd_count x) = d_count x"
| "same_shape (vd_integer x) = d_integer x"
| "same_shape (vd_real x) = d_real x"
| "same_shape (vd_string x) = d_string x"
| "same_shape (vd_address x) = d_address x"
| "same_shape (vd_subnet x l) = d_subnet x l"
| "same_shape (vd_port x p) = d_port x p"
| "same_shape (vd_timestamp x) = d_timestamp x"
| "same_shape (vd_timespan x) = d_timespan x"
| "same_shape (vd_enum_value x) = d_enum_value x"
| "same_shape (vd_set xs) = d_set (map same_shape xs)"
| "same_shape (vd_table ps) = d_table (map (map_prod same_shape same_shape) ps)"
| "same_shape (vd_list xs c) = d_vector (map same_shape xs) (length xs)"

subsection \<open>The order is by tag index first, then by payload\<close>

lemma variant_less_diff_index:
  "index x \<noteq> index y \<Longrightarrow> variant_less x y = (index x < index y)"
  by (cases x) simp_all

lemma variant_eq_diff_tag: "get_tag x \<noteq> get_tag y \<Longrightarrow> \<not> variant_eq x y"
  by (cases x) simp_all

lemma ex_bounded_Suc:
  "(\<exists>i. i \<le> Suc n \<and> i < Suc m \<and> P i) \<longleftrightarrow> (P 0 \<or> (\<exists>i. i \<le> n \<and> i < m \<and> P (Suc i)))"
proof
  assume "\<exists>i. i \<le> Suc n \<and> i < Suc m \<and> P i"
  then obtain i where i: "i \<le> Suc n" "i < Suc m" "P i" by blast
  show "P 0 \<or> (\<exists>i. i \<le> n \<and> i < m \<and> P (Suc i))"
  proof (cases i)
    case 0
    with i show ?thesis by simp
  next
    case (Suc k)
    with i have "k \<le> n \<and> k < m \<and> P (Suc k)" by simp
    then show ?thesis by blast
  qed
next
  assume "P 0 \<or> (\<exists>i. i \<le> n \<and> i < m \<and> P (Suc i))"
  then show "\<exists>i. i \<le> Suc n \<and> i < Suc m \<and> P i"
  proof
    assume "P 0"
    then show ?thesis by (intro exI [of _ 0]) simp
  next
    assume "\<exists>i. i \<le> n \<and> i < m \<and> P (Suc i)"
    then obtain k where "k \<le> n" "k < m" "P (Suc k)" by blast
    then show ?thesis by (intro exI [of _ "Suc k"]) simp
  qed
qed

lemma all_below_Suc:
  "(\<forall>j<Suc i. Q j) \<longleftrightarrow> (Q 0 \<and> (\<forall>j<i. Q (Suc j)))"
  by (metis less_Suc_eq_0_disj Suc_less_eq zero_less_Suc)

text \<open>
  What \<open>std::lexicographical_compare\<close> decides, for any function \<open>f\<close> that follows its
  loop: the ranges agree (neither element is less) up to some position \<open>i\<close>, where the
  left range ends before the right one or holds the smaller element.
\<close>

lemma lexicographical_compare_iff:
  assumes nn: "f [] [] = False"
    and nc: "\<And>y ys. f [] (y # ys) = True"
    and cn: "\<And>x xs. f (x # xs) [] = False"
    and cc: "\<And>x xs y ys. f (x # xs) (y # ys) =
               (if lt x y then True else if lt y x then False else f xs ys)"
  shows "f xs ys \<longleftrightarrow>
     (\<exists>i. i \<le> length xs \<and> i < length ys \<and>
          (\<forall>j<i. \<not> lt (xs ! j) (ys ! j) \<and> \<not> lt (ys ! j) (xs ! j)) \<and>
          (i = length xs \<or> lt (xs ! i) (ys ! i)))"
proof (induction xs arbitrary: ys)
  case Nil
  show ?case by (cases ys) (simp_all add: nn nc)
next
  case (Cons x xs)
  show ?case
  proof (cases ys)
    case Nil
    then show ?thesis by (simp add: cn)
  next
    case ys: (Cons y ys')
    have "f (x # xs) (y # ys') = (lt x y \<or> (\<not> lt y x \<and> f xs ys'))"
      by (simp add: cc)
    also have "\<dots> = (lt x y \<or> (\<not> lt x y \<and> \<not> lt y x \<and> f xs ys'))"
      by blast
    also have "\<dots> =
      (\<exists>i. i \<le> length (x # xs) \<and> i < length (y # ys') \<and>
          (\<forall>j<i. \<not> lt ((x # xs) ! j) ((y # ys') ! j) \<and> \<not> lt ((y # ys') ! j) ((x # xs) ! j)) \<and>
          (i = length (x # xs) \<or> lt ((x # xs) ! i) ((y # ys') ! i)))"
      unfolding length_Cons ex_bounded_Suc Cons.IH [of ys']
      by (simp add: all_below_Suc) blast
    finally show ?thesis unfolding ys .
  qed
qed

lemma less_range_iff:
  "less_range xs ys \<longleftrightarrow>
     (\<exists>i. i \<le> length xs \<and> i < length ys \<and>
          (\<forall>j<i. \<not> variant_less (xs ! j) (ys ! j) \<and> \<not> variant_less (ys ! j) (xs ! j)) \<and>
          (i = length xs \<or> variant_less (xs ! i) (ys ! i)))"
  by (rule lexicographical_compare_iff) simp_all

lemma less_pairs_iff:
  "less_pairs xs ys \<longleftrightarrow>
     (\<exists>i. i \<le> length xs \<and> i < length ys \<and>
          (\<forall>j<i. \<not> less_pair (xs ! j) (ys ! j) \<and> \<not> less_pair (ys ! j) (xs ! j)) \<and>
          (i = length xs \<or> less_pair (xs ! i) (ys ! i)))"
  by (rule lexicographical_compare_iff) simp_all

lemma of_char_less_neither:
  "\<not> (of_char a :: nat) < of_char b \<and> \<not> (of_char b :: nat) < of_char a \<longleftrightarrow> a = b"
  by (metis linorder_neqE_nat of_char_eq_iff less_irrefl)

lemma take_eq_iff_nth:
  "i \<le> length a \<Longrightarrow> i \<le> length b \<Longrightarrow> take i a = take i b \<longleftrightarrow> (\<forall>j<i. a ! j = b ! j)"
  by (auto simp: list_eq_iff_nth_eq)

lemma string_less_iff:
  "string_less a b \<longleftrightarrow>
     (\<exists>i. i \<le> length a \<and> i < length b \<and> take i a = take i b \<and>
          (i = length a \<or> (of_char (a ! i) :: nat) < of_char (b ! i)))"
proof -
  have "string_less a b \<longleftrightarrow>
     (\<exists>i. i \<le> length a \<and> i < length b \<and>
          (\<forall>j<i. \<not> (of_char (a ! j) :: nat) < of_char (b ! j) \<and>
                 \<not> (of_char (b ! j) :: nat) < of_char (a ! j)) \<and>
          (i = length a \<or> (of_char (a ! i) :: nat) < of_char (b ! i)))"
    by (rule lexicographical_compare_iff) simp_all
  also have "\<dots> \<longleftrightarrow> (\<exists>i. i \<le> length a \<and> i < length b \<and> take i a = take i b \<and>
          (i = length a \<or> (of_char (a ! i) :: nat) < of_char (b ! i)))"
  proof (rule ex_cong1)
    fix i
    have "i \<le> length a \<Longrightarrow> i < length b \<Longrightarrow>
            (\<forall>j<i. a ! j = b ! j) = (take i a = take i b)"
      using take_eq_iff_nth [of i a b] by simp
    then show "(i \<le> length a \<and> i < length b \<and>
          (\<forall>j<i. \<not> (of_char (a ! j) :: nat) < of_char (b ! j) \<and>
                 \<not> (of_char (b ! j) :: nat) < of_char (a ! j)) \<and>
          (i = length a \<or> (of_char (a ! i) :: nat) < of_char (b ! i))) =
        (i \<le> length a \<and> i < length b \<and> take i a = take i b \<and>
          (i = length a \<or> (of_char (a ! i) :: nat) < of_char (b ! i)))"
      unfolding of_char_less_neither by blast
  qed
  finally show ?thesis .
qed

lemma std_equal_list_all2: "std_equal pred xs ys = list_all2 pred xs ys"
  by (induction pred xs ys rule: std_equal.induct) simp_all

lemma equal_range_list_all2: "equal_range xs ys = list_all2 variant_eq xs ys"
  by (induction xs arbitrary: ys) (case_tac ys; simp)+

lemma equal_pairs_list_all2: "equal_pairs xs ys = list_all2 equal_pair xs ys"
  by (induction xs arbitrary: ys) (case_tac ys; simp)+

lemma m63: "(0x7FFFFFFFFFFFFFFF :: 64 word) = mask 63"
  by (simp add: mask_eq_exp_minus_1)

lemma m52: "(0xFFFFFFFFFFFFF :: 64 word) = mask 52"
  by (simp add: mask_eq_exp_minus_1)

lemma m11: "(0x7FF :: 64 word) = mask 11"
  by (simp add: mask_eq_exp_minus_1)

lemma unat_magnitude: "unat (real_magnitude w) = unat w mod 2 ^ 63"
  unfolding real_magnitude_def m63
  by (simp add: unat_mod unat_div take_bit_eq_mod flip: take_bit_eq_mask)

lemma real_fraction_mod: "real_fraction w = unat w mod 2 ^ 52"
  unfolding real_fraction_def m52
  by (simp add: unat_mod unat_div take_bit_eq_mod flip: take_bit_eq_mask)

lemma real_exponent_div: "real_exponent w = (unat w div 2 ^ 52) mod 2 ^ 11"
  unfolding real_exponent_def m11
  by (simp add: unat_mod unat_div take_bit_eq_mod drop_bit_eq_div flip: take_bit_eq_mask)

lemma real_negative_bit: "real_negative w = bit w 63"
proof -
  have "(0x8000000000000000 :: 64 word) = 2 ^ 63" by simp
  then show ?thesis unfolding real_negative_def by (simp only: and_exp_eq_0_iff_not_bit) simp
qed


lemma scaled_mono:
  fixes B :: nat
  assumes f1: "f1 < B" and f2: "f2 < B" and lt: "e1 * B + f1 < e2 * B + f2"
  shows "(if e1 = 0 then 2 * f1 else (B + f1) * 2 ^ e1)
           < (if e2 = 0 then 2 * f2 else (B + f2) * 2 ^ e2)"
proof -
  have le: "e1 \<le> e2"
  proof (rule ccontr)
    assume "\<not> e1 \<le> e2"
    then have "Suc e2 \<le> e1" by simp
    then have "Suc e2 * B \<le> e1 * B" by (rule mult_le_mono1)
    with f2 lt show False by simp
  qed
  show ?thesis
  proof (cases "e1 = e2")
    case True
    with lt show ?thesis by simp
  next
    case False
    with le have e: "Suc e1 \<le> e2" by simp
    have a: "(if e1 = 0 then 2 * f1 else (B + f1) * 2 ^ e1) < B * 2 ^ Suc e1"
      using f1 by (cases "e1 = 0") simp_all
    have "(2::nat) ^ Suc e1 \<le> 2 ^ e2" using e by (rule power_increasing) simp
    then have "B * 2 ^ Suc e1 \<le> B * 2 ^ e2" by (rule mult_le_mono2)
    also have "\<dots> \<le> (B + f2) * 2 ^ e2" by simp
    finally have "B * 2 ^ Suc e1 \<le> (if e2 = 0 then 2 * f2 else (B + f2) * 2 ^ e2)"
      using e by simp
    with a show ?thesis by simp
  qed
qed

lemma scaled_less_iff:
  fixes B :: nat
  assumes f1: "f1 < B" and f2: "f2 < B"
  shows "((if e1 = 0 then 2 * f1 else (B + f1) * 2 ^ e1)
           < (if e2 = 0 then 2 * f2 else (B + f2) * 2 ^ e2))
         = (e1 * B + f1 < e2 * B + f2)"
proof (cases "e1 * B + f1 < e2 * B + f2")
  case True
  with scaled_mono [OF f1 f2] show ?thesis by simp
next
  case False
  show ?thesis
  proof (cases "e2 * B + f2 < e1 * B + f1")
    case True
    from scaled_mono [OF f2 f1 True] False show ?thesis by simp
  next
    case nl: False
    with False have eq: "e1 * B + f1 = e2 * B + f2" by simp
    have "e1 = e2"
    proof -
      have "(e1 * B + f1) div B = e1" "(e2 * B + f2) div B = e2"
        using f1 f2 by simp_all
      with eq show ?thesis by simp
    qed
    with eq False show ?thesis by simp
  qed
qed

lemma magnitude_parts:
  "unat (real_magnitude w) = real_exponent w * 2 ^ 52 + real_fraction w"
proof -
  have "unat w mod (2 ^ 52 * 2 ^ 11) = 2 ^ 52 * (unat w div 2 ^ 52 mod 2 ^ 11) + unat w mod 2 ^ 52"
    by (rule mod_mult2_eq)
  then show ?thesis
    by (simp add: unat_magnitude real_exponent_div real_fraction_mod)
qed

lemma real_fraction_less: "real_fraction w < 2 ^ 52"
  by (simp add: real_fraction_mod)

lemma real_exponent_less: "real_exponent w < 2048"
  by (simp add: real_exponent_div)

lemma scaled_magnitude_less_iff:
  "(scaled_magnitude a < scaled_magnitude b) = (real_magnitude a < real_magnitude b)"
  unfolding scaled_magnitude_def word_less_nat_alt magnitude_parts
  by (rule scaled_less_iff) (rule real_fraction_less)+

lemma scaled_magnitude_zero_iff: "(scaled_magnitude a = 0) = (real_magnitude a = 0)"
proof -
  have "(real_magnitude a = 0) = (unat (real_magnitude a) = 0)"
    by (simp add: unat_eq_0)
  then show ?thesis
    unfolding magnitude_parts by (simp add: scaled_magnitude_def)
qed

lemma real_is_nan_iff:
  "real_is_nan w = (real_exponent w = 2047 \<and> real_fraction w \<noteq> 0)"
proof -
  have "unat (0x7FF0000000000000 :: 64 word) = 2047 * 2 ^ 52" by simp
  then have "real_is_nan w = (2047 * 2 ^ 52 < real_exponent w * 2 ^ 52 + real_fraction w)"
    unfolding real_is_nan_def word_less_nat_alt magnitude_parts by (simp only:)
  then show ?thesis
    using real_exponent_less [of w] real_fraction_less [of w] by auto
qed


lemma sign_and_magnitude:
  fixes a b :: "64 word"
  assumes s: "bit a 63 = bit b 63" and m: "real_magnitude a = real_magnitude b"
  shows "a = b"
proof (rule bit_word_eqI)
  fix n :: nat
  assume "n < LENGTH(64)"
  then have n: "n < 64" by simp
  show "bit a n = bit b n"
  proof (cases "n = 63")
    case True
    with s show ?thesis by simp
  next
    case False
    with n have l: "n < 63" by simp
    from m have "bit (a AND mask 63) n = bit (b AND mask 63) n"
      unfolding real_magnitude_def m63 by simp
    with l show ?thesis by (simp add: bit_and_iff bit_mask_iff)
  qed
qed

lemma real_less_iff:
  "real_less a b = (\<not> real_is_nan a \<and> \<not> real_is_nan b \<and> real_value a < real_value b)"
proof -
  have z: "(scaled_magnitude a = 0 \<and> scaled_magnitude b = 0)
             = (real_magnitude a = 0 \<and> real_magnitude b = 0)"
    by (simp add: scaled_magnitude_zero_iff)
  show ?thesis
    unfolding real_less_def real_value_def real_negative_bit
    using scaled_magnitude_less_iff [of a b] scaled_magnitude_less_iff [of b a] z
    by auto
qed

lemma real_eq_iff:
  "real_eq a b = (\<not> real_is_nan a \<and> \<not> real_is_nan b \<and> real_value a = real_value b)"
proof -
  have m: "(scaled_magnitude a = scaled_magnitude b) = (real_magnitude a = real_magnitude b)"
    using scaled_magnitude_less_iff [of a b] scaled_magnitude_less_iff [of b a]
    by (metis linorder_neqE_nat not_less_iff_gr_or_eq word_less_nat_alt word_unat_eq_iff)
  have v: "(real_value a = real_value b)
           = (a = b \<or> (real_magnitude a = 0 \<and> real_magnitude b = 0))"
  proof (cases "bit a 63 = bit b 63")
    case True
    then have "(real_value a = real_value b) = (real_magnitude a = real_magnitude b)"
      using m by (auto simp: real_value_def)
    moreover have "(real_magnitude a = real_magnitude b) = (a = b)"
      using sign_and_magnitude [OF True] by auto
    ultimately show ?thesis by auto
  next
    case False
    then have ne: "a \<noteq> b" by auto
    from False have "(real_value a = real_value b)
        = (scaled_magnitude a = 0 \<and> scaled_magnitude b = 0)"
      by (auto simp: real_value_def)
    with ne show ?thesis by (simp add: scaled_magnitude_zero_iff)
  qed
  show ?thesis unfolding real_eq_def v by (rule refl)
qed

text \<open>
  Claim C5. \<open>operator<\<close> on two view values compares by tag index first: for different
  alternatives, \<open>x < y\<close> is exactly \<open>index x < index y\<close>. Only for one alternative does it
  read the payloads, each in its natural order: \<open>false < true\<close>; counts unsigned;
  integers, timestamps and timespans signed; reals as the numbers they denote, a NaN
  being less than nothing and nothing less than a NaN; addresses as 128-bit numbers,
  subnets by address and then prefix length, ports by number and then protocol;
  strings and enum names as byte sequences (the first differing byte decides, a proper
  prefix is less); and vectors, sets and tables as ordered sequences of their elements
  (the first position where one element is less than the other decides, a proper prefix
  is less; the elements of a table are its key/value pairs). \<open>operator==\<close> is
  structural: values of different tags are unequal, payloads of one tag are compared by
  their own \<open>==\<close> (reals as numbers, so that the two zeros are equal and a NaN equals
  nothing), and containers are equal iff they have the same length and equal elements
  at every position; the capacity of a vector is not read.
\<close>

theorem variant_less_by_tag_index_then_payload:
  "(index x \<noteq> index y \<longrightarrow> variant_less x y = (index x < index y))
   \<and> variant_less vd_none vd_none = False
   \<and> variant_less (vd_boolean a) (vd_boolean b) = (\<not> a \<and> b)
   \<and> variant_less (vd_count m) (vd_count n) = (unat m < unat n)
   \<and> variant_less (vd_integer m) (vd_integer n) = (sint m < sint n)
   \<and> variant_less (vd_real u) (vd_real w) =
       (\<not> (real_exponent u = 2047 \<and> real_fraction u \<noteq> 0)
        \<and> \<not> (real_exponent w = 2047 \<and> real_fraction w \<noteq> 0)
        \<and> real_value u < real_value w)
   \<and> variant_less (vd_address g) (vd_address h) = (unat g < unat h)
   \<and> variant_less (vd_subnet g l) (vd_subnet h l') =
       (unat g < unat h \<or> (g = h \<and> unat l < unat l'))
   \<and> variant_less (vd_port pn pp) (vd_port qn qp) =
       (unat pn < unat qn \<or> (pn = qn \<and> unat pp < unat qp))
   \<and> variant_less (vd_timestamp m) (vd_timestamp n) = (sint m < sint n)
   \<and> variant_less (vd_timespan m) (vd_timespan n) = (sint m < sint n)
   \<and> variant_less (vd_string s) (vd_string t) =
       (\<exists>i. i \<le> length s \<and> i < length t \<and> take i s = take i t \<and>
            (i = length s \<or> (of_char (s ! i) :: nat) < of_char (t ! i)))
   \<and> variant_less (vd_enum_value s) (vd_enum_value t) =
       (\<exists>i. i \<le> length s \<and> i < length t \<and> take i s = take i t \<and>
            (i = length s \<or> (of_char (s ! i) :: nat) < of_char (t ! i)))
   \<and> variant_less (vd_list xs c) (vd_list ys d) =
       (\<exists>i. i \<le> length xs \<and> i < length ys \<and>
            (\<forall>j<i. \<not> variant_less (xs ! j) (ys ! j) \<and> \<not> variant_less (ys ! j) (xs ! j)) \<and>
            (i = length xs \<or> variant_less (xs ! i) (ys ! i)))
   \<and> variant_less (vd_set xs) (vd_set ys) =
       (\<exists>i. i \<le> length xs \<and> i < length ys \<and>
            (\<forall>j<i. \<not> variant_less (xs ! j) (ys ! j) \<and> \<not> variant_less (ys ! j) (xs ! j)) \<and>
            (i = length xs \<or> variant_less (xs ! i) (ys ! i)))
   \<and> variant_less (vd_table ps) (vd_table qs) =
       (\<exists>i. i \<le> length ps \<and> i < length qs \<and>
            (\<forall>j<i. \<not> less_pair (ps ! j) (qs ! j) \<and> \<not> less_pair (qs ! j) (ps ! j)) \<and>
            (i = length ps \<or> less_pair (ps ! i) (qs ! i)))
   \<and> less_pair (k, v) (k', v') =
       (variant_less k k' \<or> (\<not> variant_less k' k \<and> variant_less v v'))
   \<and> (get_tag x \<noteq> get_tag y \<longrightarrow> \<not> variant_eq x y)
   \<and> variant_eq vd_none vd_none
   \<and> variant_eq (vd_boolean a) (vd_boolean b) = (a = b)
   \<and> variant_eq (vd_count m) (vd_count n) = (m = n)
   \<and> variant_eq (vd_integer m) (vd_integer n) = (m = n)
   \<and> variant_eq (vd_real u) (vd_real w) =
       (\<not> (real_exponent u = 2047 \<and> real_fraction u \<noteq> 0)
        \<and> \<not> (real_exponent w = 2047 \<and> real_fraction w \<noteq> 0)
        \<and> real_value u = real_value w)
   \<and> variant_eq (vd_address g) (vd_address h) = (g = h)
   \<and> variant_eq (vd_subnet g l) (vd_subnet h l') = (g = h \<and> l = l')
   \<and> variant_eq (vd_port pn pp) (vd_port qn qp) = (pn = qn \<and> pp = qp)
   \<and> variant_eq (vd_timestamp m) (vd_timestamp n) = (m = n)
   \<and> variant_eq (vd_timespan m) (vd_timespan n) = (m = n)
   \<and> variant_eq (vd_string s) (vd_string t) = (s = t)
   \<and> variant_eq (vd_enum_value s) (vd_enum_value t) = (s = t)
   \<and> variant_eq (vd_list xs c) (vd_list ys d) = list_all2 variant_eq xs ys
   \<and> variant_eq (vd_set xs) (vd_set ys) = list_all2 variant_eq xs ys
   \<and> variant_eq (vd_table ps) (vd_table qs) =
       list_all2 (\<lambda>(k, v) (k', v'). variant_eq k k' \<and> variant_eq v v') ps qs"
proof -
  have pair: "equal_pair = (\<lambda>(k, v) (k', v'). variant_eq k k' \<and> variant_eq v v')"
    by (simp add: fun_eq_iff)
  have rl: "real_less u w =
       (\<not> (real_exponent u = 2047 \<and> real_fraction u \<noteq> 0)
        \<and> \<not> (real_exponent w = 2047 \<and> real_fraction w \<noteq> 0)
        \<and> real_value u < real_value w)"
    unfolding real_less_iff real_is_nan_iff by (rule refl)
  have re: "real_eq u w =
       (\<not> (real_exponent u = 2047 \<and> real_fraction u \<noteq> 0)
        \<and> \<not> (real_exponent w = 2047 \<and> real_fraction w \<noteq> 0)
        \<and> real_value u = real_value w)"
    unfolding real_eq_iff real_is_nan_iff by (rule refl)
  show ?thesis
    using variant_less_diff_index [of x y] variant_eq_diff_tag [of x y]
      less_range_iff [of xs ys] less_pairs_iff [of ps qs] string_less_iff [of s t]
    by (simp add: std_equal_list_all2 equal_range_list_all2 equal_pairs_list_all2
          pair list.rel_eq rl re)
qed

text \<open>
  Two values of different tags, and pairs of values of one tag: the doubles \<open>1.0 < 2.0\<close>
  and \<open>-1.0 < 1.0\<close>, a NaN, the two zeros, a port, a string and its extension, and two
  vectors that differ in capacity only.
\<close>

theorem variant_less_by_tag_index_then_payload_witness:
  "index (vd_count 7) \<noteq> index (vd_string ''zeek'')
   \<and> variant_less (vd_count 7) (vd_string ''zeek'')
   \<and> \<not> variant_less (vd_string ''zeek'') (vd_count 7)
   \<and> get_tag (vd_count 7) \<noteq> get_tag (vd_string ''zeek'')
   \<and> \<not> variant_eq (vd_count 7) (vd_string ''zeek'')
   \<and> variant_less (vd_real 0x3FF0000000000000) (vd_real 0x4000000000000000)
   \<and> \<not> variant_less (vd_real 0x4000000000000000) (vd_real 0x3FF0000000000000)
   \<and> variant_less (vd_real 0xBFF0000000000000) (vd_real 0x3FF0000000000000)
   \<and> \<not> variant_less (vd_real 0x7FF8000000000000) (vd_real 0x3FF0000000000000)
   \<and> \<not> variant_less (vd_real 0x3FF0000000000000) (vd_real 0x7FF8000000000000)
   \<and> \<not> variant_eq (vd_real 0x7FF8000000000000) (vd_real 0x7FF8000000000000)
   \<and> \<not> variant_less (vd_real 0x8000000000000000) (vd_real 0)
   \<and> variant_eq (vd_real 0x8000000000000000) (vd_real 0)
   \<and> variant_less (vd_port 53 2) (vd_port 80 1)
   \<and> variant_less (vd_port 53 1) (vd_port 53 2)
   \<and> variant_less (vd_subnet 10 8) (vd_subnet 10 16)
   \<and> variant_less (vd_address 10) (vd_address 11)
   \<and> variant_eq (vd_list [vd_count 1] 1) (vd_list [vd_count 1] 4)
   \<and> \<not> variant_less (vd_list [vd_count 1] 1) (vd_list [vd_count 1] 4)"
proof -
  let ?one = "0x3FF0000000000000 :: real_bits"
  let ?two = "0x4000000000000000 :: real_bits"
  let ?minus_one = "0xBFF0000000000000 :: real_bits"
  let ?nan = "0x7FF8000000000000 :: real_bits"
  let ?minus_zero = "0x8000000000000000 :: real_bits"
  have e: "real_exponent ?one = 1023" "real_exponent ?two = 1024"
    "real_exponent ?minus_one = 1023" "real_exponent ?nan = 2047"
    "real_exponent ?minus_zero = 0" "real_exponent 0 = 0"
    by (simp_all add: real_exponent_div)
  have f: "real_fraction ?one = 0" "real_fraction ?two = 0"
    "real_fraction ?minus_one = 0" "real_fraction ?nan = 2 ^ 51"
    "real_fraction ?minus_zero = 0" "real_fraction 0 = 0"
    by (simp_all add: real_fraction_mod)
  have v: "real_value ?one < real_value ?two" "real_value ?minus_one < real_value ?one"
    "real_value ?minus_zero = real_value 0"
    by (simp_all add: real_value_def scaled_magnitude_def e f)
  have tags: "index (vd_count 7) \<noteq> index (vd_string ''zeek'')"
    "get_tag (vd_count 7) \<noteq> get_tag (vd_string ''zeek'')"
    by simp_all
  have a: "variant_less (vd_count 7) (vd_string ''zeek'')"
      "\<not> variant_eq (vd_count 7) (vd_string ''zeek'')"
    using tags variant_less_by_tag_index_then_payload
        [where x = "vd_count 7" and y = "vd_string ''zeek''"]
    by simp_all
  have b: "\<not> variant_less (vd_string ''zeek'') (vd_count 7)"
    using variant_less_by_tag_index_then_payload
        [where x = "vd_string ''zeek''" and y = "vd_count 7"]
    by simp
  have r1: "variant_less (vd_real ?one) (vd_real ?two)"
      "\<not> variant_less (vd_real ?two) (vd_real ?one)"
    using v variant_less_by_tag_index_then_payload [where u = ?one and w = ?two]
      variant_less_by_tag_index_then_payload [where u = ?two and w = ?one]
    by (simp_all add: e f)
  have r2: "variant_less (vd_real ?minus_one) (vd_real ?one)"
    using v variant_less_by_tag_index_then_payload [where u = ?minus_one and w = ?one]
    by (simp add: e f)
  have r3: "\<not> variant_less (vd_real ?nan) (vd_real ?one)"
      "\<not> variant_less (vd_real ?one) (vd_real ?nan)"
      "\<not> variant_eq (vd_real ?nan) (vd_real ?nan)"
    using variant_less_by_tag_index_then_payload [where u = ?nan and w = ?one]
      variant_less_by_tag_index_then_payload [where u = ?one and w = ?nan]
      variant_less_by_tag_index_then_payload [where u = ?nan and w = ?nan]
    by (simp_all add: e f)
  have r4: "\<not> variant_less (vd_real ?minus_zero) (vd_real 0)"
      "variant_eq (vd_real ?minus_zero) (vd_real 0)"
    using v variant_less_by_tag_index_then_payload [where u = ?minus_zero and w = 0]
    by (simp_all add: e f)
  have p: "variant_less (vd_port 53 2) (vd_port 80 1)"
      "variant_less (vd_port 53 1) (vd_port 53 2)"
      "variant_less (vd_subnet 10 8) (vd_subnet 10 16)"
      "variant_less (vd_address 10) (vd_address 11)"
    using variant_less_by_tag_index_then_payload
        [where pn = 53 and pp = 2 and qn = 80 and qp = 1]
      variant_less_by_tag_index_then_payload
        [where pn = 53 and pp = 1 and qn = 53 and qp = 2 and g = 10 and l = 8 and h = 10
           and l' = 16]
      variant_less_by_tag_index_then_payload [where g = 10 and h = 11]
    by simp_all
  have l: "variant_eq (vd_list [vd_count 1] 1) (vd_list [vd_count 1] 4)"
      "\<not> variant_less (vd_list [vd_count 1] 1) (vd_list [vd_count 1] 4)"
    by simp_all
  show ?thesis
    using tags a b r1 r2 r3 r4 p l by (simp only: simp_thms)
qed

subsection \<open>A view value and its owning copy\<close>

lemma data_index_same_shape [simp]: "data_index (same_shape v) = index v"
  by (cases v) simp_all

lemma data_get_tag_same_shape [simp]: "data_get_tag (same_shape v) = get_tag v"
  by (cases v) simp_all










lemma inorder_rb_paint [simp]: "inorder (rb_paint c t) = inorder t"
  by (cases t) simp_all


































text \<open>
  The set of the three vectors converts to a set of three: none of the two
  insertions after the first finds an equivalent element on its way down the tree.
\<close>

lemma to_data_keeps_inconsistent_set:
  "to_data (vd_set [vd_list [vd_real 0x7FF8000000000000, vd_count 1] 2,
                    vd_list [vd_real 0x3FF0000000000000, vd_count 3] 2,
                    vd_list [vd_real 0x4008000000000000, vd_count 1] 2])
   = d_set [d_vector [d_real 0x7FF8000000000000, d_count 1] 2,
            d_vector [d_real 0x3FF0000000000000, d_count 3] 2,
            d_vector [d_real 0x4008000000000000, d_count 1] 2]"
  by code_simp

section \<open>Shallow parsing: \<open>variant_data::parse_shallow\<close>\<close>

text \<open>
  \<open>format::bin::v1::decode\<close> is declared in \<^verbatim>\<open>broker/format/bin.hh\<close>, outside the files
  at hand, and is a parameter here. It reads the byte range \<open>[begin, end)\<close>, hands what
  it decodes to the handler, which stores it in \<open>*this\<close>, and returns \<open>(ok, pos)\<close>. The
  range is the list of its bytes and a position is an offset from \<open>begin\<close>, so \<open>end\<close> is
  the length of the list. The decoder gets the value of \<open>*this\<close> and returns the new one.
\<close>

type_synonym byte = "8 word"

type_synonym decoder = "byte list \<Rightarrow> variant_data \<Rightarrow> (bool \<times> nat) \<times> variant_data"

definition parse_shallow ::
  "decoder \<Rightarrow> variant_data \<Rightarrow> byte list \<Rightarrow> (bool \<times> nat) \<times> variant_data" where
  "parse_shallow decode this bytes =
     (case decode bytes this of
        ((ok, pos), this') \<Rightarrow>
          if \<not> ok \<or> pos \<noteq> length bytes then ((False, pos), this')
          else ((True, pos), this'))"

text \<open>
  Claim C9. \<open>parse_shallow\<close> accepts only a buffer that encodes exactly one value: for
  every byte range it reports success iff the decoder succeeds and the position the
  decoder returns is the end of the range; the position it reports is the decoder's.
  In particular, when decoding succeeds and leaves trailing bytes, \<open>parse_shallow\<close>
  reports failure.
\<close>

theorem parse_shallow_success_iff_decoded_to_end:
  "fst (fst (parse_shallow decode this bytes)) =
     (fst (fst (decode bytes this)) \<and> snd (fst (decode bytes this)) = length bytes)
   \<and> snd (fst (parse_shallow decode this bytes)) = snd (fst (decode bytes this))
   \<and> snd (parse_shallow decode this bytes) = snd (decode bytes this)
   \<and> (fst (fst (decode bytes this)) \<and> snd (fst (decode bytes this)) < length bytes
        \<longrightarrow> \<not> fst (fst (parse_shallow decode this bytes)))"
  by (cases "decode bytes this") (auto simp: parse_shallow_def split: if_splits)

text \<open>
  A decoder that reads the one tag byte of a \<open>none\<close> value, on a buffer of two bytes: it
  succeeds at position 1, one byte before the end, and \<open>parse_shallow\<close> fails.
\<close>

theorem parse_shallow_success_iff_decoded_to_end_witness:
  "fst (fst ((\<lambda>bs t. if bs \<noteq> [] \<and> hd bs = 0 then ((True, 1), vd_none) else ((False, 0), t))
        [0, 0 :: byte] (vd_count 5)))
   \<and> snd (fst ((\<lambda>bs t. if bs \<noteq> [] \<and> hd bs = 0 then ((True, 1), vd_none) else ((False, 0), t))
        [0, 0 :: byte] (vd_count 5))) < length [0, 0 :: byte]
   \<and> \<not> fst (fst (parse_shallow
        (\<lambda>bs t. if bs \<noteq> [] \<and> hd bs = 0 then ((True, 1), vd_none) else ((False, 0), t))
        (vd_count 5) [0, 0]))
   \<and> fst (fst (parse_shallow
        (\<lambda>bs t. if bs \<noteq> [] \<and> hd bs = 0 then ((True, 1), vd_none) else ((False, 0), t))
        (vd_count 5) [0]))"
  using parse_shallow_success_iff_decoded_to_end
    [of "\<lambda>bs t. if bs \<noteq> [] \<and> hd bs = 0 then ((True, 1), vd_none) else ((False, 0), t)"
        "vd_count 5" "[0, 0]"]
    parse_shallow_success_iff_decoded_to_end
    [of "\<lambda>bs t. if bs \<noteq> [] \<and> hd bs = 0 then ((True, 1), vd_none) else ((False, 0), t)"
        "vd_count 5" "[0]"]
  by simp

section \<open>The Python binding of \<open>zeek::Event\<close>\<close>

text \<open>
  \<^verbatim>\<open>bindings/python/zeek.cpp\<close> wraps four members of \<open>broker::zeek::Event\<close>. The class
  and \<open>zeek::Message::type\<close> are declared in \<^verbatim>\<open>broker/zeek.hh\<close>, outside the files at
  hand; what the binding calls is a parameter: \<open>Message::type\<close> with the enumerator
  \<open>Type::Event\<close>, the members \<open>valid\<close>, \<open>name\<close>, \<open>ts\<close> and \<open>args\<close>, and \<open>broker::convert\<close>
  from a timestamp to a \<open>double\<close>. An \<open>Event\<close> is built from a \<open>data\<close> and \<open>as_data()\<close>
  returns it, so an event is that \<open>data\<close>.
\<close>

record 't zeek_hh =
  Message_type :: "data \<Rightarrow> 't"
  Type_Event :: 't
  Event_valid :: "data \<Rightarrow> bool"
  Event_name :: "data \<Rightarrow> string"
  Event_ts :: "data \<Rightarrow> 64 word option"
  Event_args :: "data \<Rightarrow> data list"
  convert_double :: "64 word \<Rightarrow> real_bits"

datatype py_exception = invalid_argument string

definition py_valid :: "'t zeek_hh \<Rightarrow> data \<Rightarrow> py_exception + bool" where
  "py_valid z ev =
     (let t = Message_type z ev in
      if t \<noteq> Type_Event z then Inr False
      else Inr (Event_valid z ev))"

definition py_name :: "'t zeek_hh \<Rightarrow> data \<Rightarrow> py_exception + string" where
  "py_name z ev =
     (let t = Message_type z ev in
      if t \<noteq> Type_Event z then Inl (invalid_argument ''invalid Event data/type'')
      else if \<not> Event_valid z ev then Inl (invalid_argument ''invalid Event data'')
      else Inr (Event_name z ev))"

definition py_timestamp :: "'t zeek_hh \<Rightarrow> data \<Rightarrow> py_exception + real_bits option" where
  "py_timestamp z ev =
     (let t = Message_type z ev in
      if t \<noteq> Type_Event z then Inl (invalid_argument ''invalid Event data/type'')
      else if \<not> Event_valid z ev then Inl (invalid_argument ''invalid Event data'')
      else (case Event_ts z ev of
              Some ev_ts \<Rightarrow> Inr (Some (convert_double z ev_ts))
            | None \<Rightarrow> Inr None))"

definition py_args :: "'t zeek_hh \<Rightarrow> data \<Rightarrow> py_exception + data list" where
  "py_args z ev =
     (let t = Message_type z ev in
      if t \<noteq> Type_Event z then Inl (invalid_argument ''invalid Event data/type'')
      else if \<not> Event_valid z ev then Inl (invalid_argument ''invalid Event data'')
      else Inr (Event_args z ev))"

text \<open>
  Claim C10. \<open>Event.valid()\<close> returns \<open>False\<close>, without raising, when the wrapped data is
  not of message type \<open>Event\<close> (and the event's own \<open>valid()\<close> otherwise). The accessors
  \<open>name()\<close>, \<open>timestamp()\<close> and \<open>args()\<close> raise \<open>std::invalid_argument\<close> whenever the wrapped
  data is not of message type \<open>Event\<close> or the event is not valid; for every valid event
  they return its name, its optional timestamp (converted to a \<open>double\<close>) and its
  argument vector, without raising.
\<close>

theorem zeek_event_binding_guards:
  "(Message_type z ev \<noteq> Type_Event z \<longrightarrow> py_valid z ev = Inr False)
   \<and> (Message_type z ev = Type_Event z \<longrightarrow> py_valid z ev = Inr (Event_valid z ev))
   \<and> (Message_type z ev \<noteq> Type_Event z \<or> \<not> Event_valid z ev \<longrightarrow>
        (\<exists>what. py_name z ev = Inl (invalid_argument what))
        \<and> (\<exists>what. py_timestamp z ev = Inl (invalid_argument what))
        \<and> (\<exists>what. py_args z ev = Inl (invalid_argument what)))
   \<and> (Message_type z ev = Type_Event z \<and> Event_valid z ev \<longrightarrow>
        py_name z ev = Inr (Event_name z ev)
        \<and> py_timestamp z ev = Inr (map_option (convert_double z) (Event_ts z ev))
        \<and> py_args z ev = Inr (Event_args z ev))"
  by (auto simp: py_valid_def py_name_def py_timestamp_def py_args_def Let_def
        split: option.split)

text \<open>
  An instance for the hypotheses: the message type is the tag of the wrapped data, a
  vector for an event; an event is valid when the vector starts with its name, and the
  arguments follow. An event passes every guard, a \<open>count\<close> none.
\<close>

theorem zeek_event_binding_guards_witness:
  "py_valid
     \<lparr>Message_type = data_get_tag, Type_Event = tag_vector,
      Event_valid = (\<lambda>d. case d of d_vector (d_string n # xs) c \<Rightarrow> True | _ \<Rightarrow> False),
      Event_name = (\<lambda>d. case d of d_vector (d_string n # xs) c \<Rightarrow> n | _ \<Rightarrow> []),
      Event_ts = (\<lambda>d. None),
      Event_args = (\<lambda>d. case d of d_vector (x # xs) c \<Rightarrow> xs | _ \<Rightarrow> []),
      convert_double = (\<lambda>t. t)\<rparr>
     (d_count 7) = Inr False
   \<and> (\<exists>what. py_name
     \<lparr>Message_type = data_get_tag, Type_Event = tag_vector,
      Event_valid = (\<lambda>d. case d of d_vector (d_string n # xs) c \<Rightarrow> True | _ \<Rightarrow> False),
      Event_name = (\<lambda>d. case d of d_vector (d_string n # xs) c \<Rightarrow> n | _ \<Rightarrow> []),
      Event_ts = (\<lambda>d. None),
      Event_args = (\<lambda>d. case d of d_vector (x # xs) c \<Rightarrow> xs | _ \<Rightarrow> []),
      convert_double = (\<lambda>t. t)\<rparr>
     (d_count 7) = Inl (invalid_argument what))
   \<and> py_name
     \<lparr>Message_type = data_get_tag, Type_Event = tag_vector,
      Event_valid = (\<lambda>d. case d of d_vector (d_string n # xs) c \<Rightarrow> True | _ \<Rightarrow> False),
      Event_name = (\<lambda>d. case d of d_vector (d_string n # xs) c \<Rightarrow> n | _ \<Rightarrow> []),
      Event_ts = (\<lambda>d. None),
      Event_args = (\<lambda>d. case d of d_vector (x # xs) c \<Rightarrow> xs | _ \<Rightarrow> []),
      convert_double = (\<lambda>t. t)\<rparr>
     (d_vector [d_string ''ping'', d_count 42] 2) = Inr ''ping''
   \<and> py_args
     \<lparr>Message_type = data_get_tag, Type_Event = tag_vector,
      Event_valid = (\<lambda>d. case d of d_vector (d_string n # xs) c \<Rightarrow> True | _ \<Rightarrow> False),
      Event_name = (\<lambda>d. case d of d_vector (d_string n # xs) c \<Rightarrow> n | _ \<Rightarrow> []),
      Event_ts = (\<lambda>d. None),
      Event_args = (\<lambda>d. case d of d_vector (x # xs) c \<Rightarrow> xs | _ \<Rightarrow> []),
      convert_double = (\<lambda>t. t)\<rparr>
     (d_vector [d_string ''ping'', d_count 42] 2) = Inr [d_count 42]"
proof -
  let ?z = "\<lparr>Message_type = data_get_tag, Type_Event = tag_vector,
      Event_valid = (\<lambda>d. case d of d_vector (d_string n # xs) c \<Rightarrow> True | _ \<Rightarrow> False),
      Event_name = (\<lambda>d. case d of d_vector (d_string n # xs) c \<Rightarrow> n | _ \<Rightarrow> []),
      Event_ts = (\<lambda>d. None),
      Event_args = (\<lambda>d. case d of d_vector (x # xs) c \<Rightarrow> xs | _ \<Rightarrow> []),
      convert_double = (\<lambda>t. t)\<rparr>"
  let ?ev = "d_vector [d_string ''ping'', d_count 42] 2"
  have bad: "Message_type ?z (d_count 7) \<noteq> Type_Event ?z" by simp
  have good: "Message_type ?z ?ev = Type_Event ?z \<and> Event_valid ?z ?ev" by simp
  have 1: "py_valid ?z (d_count 7) = Inr False"
    using bad zeek_event_binding_guards [of ?z "d_count 7"] by blast
  have 2: "\<exists>what. py_name ?z (d_count 7) = Inl (invalid_argument what)"
    using bad zeek_event_binding_guards [of ?z "d_count 7"] by blast
  have "py_name ?z ?ev = Inr (Event_name ?z ?ev) \<and> py_args ?z ?ev = Inr (Event_args ?z ?ev)"
    using good zeek_event_binding_guards [of ?z ?ev] by blast
  then have 3: "py_name ?z ?ev = Inr ''ping'' \<and> py_args ?z ?ev = Inr [d_count 42]"
    by simp
  from 1 2 3 show ?thesis by blast
qed

section \<open>The subscriber queue and its wake descriptor\<close>

text \<open>
  Modelled from the spec: \<open>detail::flare\<close>, declared in \<^verbatim>\<open>broker/detail/flare.hh\<close>,
  outside the files at hand. The wake descriptor is armed (signalled) or extinguished:
  \<open>fire()\<close> writes one byte into the flare's pipe, \<open>extinguish()\<close> drains the pipe, and the
  descriptor is armed, readable for a poller, while the pipe holds a byte. The flare is
  the number of bytes in its pipe.
\<close>

type_synonym flare = nat

definition fire :: "flare \<Rightarrow> flare" where
  "fire f = f + 1"

definition flare_extinguish :: "flare \<Rightarrow> flare" where
  "flare_extinguish f = 0"

definition armed :: "flare \<Rightarrow> bool" where
  "armed f = (0 < f)"

text \<open>
  \<open>caf::async::bounded_buffer\<close> belongs to the actor library. What the queue uses of it:
  \<open>available()\<close> is the number of buffered items; \<open>pull(delay_errors, num, consumer)\<close>
  hands up to \<open>num\<close> items to \<open>on_next\<close> and, once the buffer is empty and the producer
  has closed it, calls \<open>on_complete\<close> or \<open>on_error\<close> and reports that the flow has ended;
  the producer's \<open>push\<close> appends an item and its \<open>close\<close> ends the flow, and either calls
  the consumer's \<open>on_producer_wakeup\<close> when the buffer was empty.
\<close>

record 'm bounded_buffer =
  items :: "'m list"
  closed :: bool

definition available :: "'m bounded_buffer \<Rightarrow> nat" where
  "available b = length (items b)"

definition buffer_pull :: "nat \<Rightarrow> 'm bounded_buffer \<Rightarrow> 'm list \<times> bool \<times> 'm bounded_buffer" where
  "buffer_pull num b =
     (let b' = b\<lparr>items := drop num (items b)\<rparr>
      in (take num (items b), items b' \<noteq> [] \<or> \<not> closed b', b'))"

text \<open>
  \<open>subscriber_queue\<close>: \<open>buf_\<close> (\<open>None\<close> for \<open>nullptr\<close>), \<open>ready_\<close> and the flare \<open>fx_\<close>. The
  mutex \<open>mtx_\<close> guards \<open>ready_\<close> and \<open>fx_\<close>; a member function that holds it for its whole
  body is one function here.
\<close>

record 'm subscriber_queue =
  buf :: "'m bounded_buffer option"
  ready :: bool
  fx :: flare

definition on_producer_wakeup :: "'m subscriber_queue \<Rightarrow> 'm subscriber_queue" where
  "on_producer_wakeup q =
     (if \<not> ready q then q\<lparr>fx := fire (fx q), ready := True\<rparr> else q)"

definition extinguish :: "'m subscriber_queue \<Rightarrow> 'm subscriber_queue" where
  "extinguish q =
     (if ready q then q\<lparr>ready := False, fx := flare_extinguish (fx q)\<rparr> else q)"

text \<open>
  \<open>pull(dst_buf, num)\<close> when nothing else runs in between. The callbacks \<open>on_complete\<close>
  and \<open>on_error\<close> call \<open>extinguish()\<close>; \<open>on_next\<close> appends to \<open>dst_buf\<close>.
\<close>

definition pull :: "'m list \<Rightarrow> nat \<Rightarrow> 'm subscriber_queue \<Rightarrow> 'm list \<times> 'm subscriber_queue" where
  "pull dst_buf num q =
     (case buf q of
        None \<Rightarrow> (dst_buf, q)
      | Some b \<Rightarrow>
          (case buffer_pull num b of
             (xs, still_open, b') \<Rightarrow>
               if \<not> still_open then (dst_buf @ xs, (extinguish q)\<lparr>buf := None\<rparr>)
               else if available b' = 0 then
                 (if ready q \<and> available b' = 0
                  then (dst_buf @ xs,
                        q\<lparr>buf := Some b', ready := False, fx := flare_extinguish (fx q)\<rparr>)
                  else (dst_buf @ xs, q\<lparr>buf := Some b'\<rparr>))
               else (dst_buf @ xs, q\<lparr>buf := Some b'\<rparr>)))"

subsection \<open>Producer and consumer, interleaved\<close>

text \<open>
  The producer and the consumer run in two threads. A schedule is a list of atomic
  actions. The producer appends an item (\<open>Push\<close>) or ends the flow (\<open>Close\<close>); either owes
  the consumer a call of \<open>on_producer_wakeup\<close> when the buffer was empty, which runs
  later (\<open>Wakeup\<close>), once it gets the mutex. The consumer's \<open>pull\<close> is cut where another
  thread can run: the buffer's own \<open>pull\<close> (\<open>Pull_fetch\<close>), the first, unlocked
  \<open>buf_->available() == 0\<close> (\<open>Pull_check\<close>), taking the mutex and testing
  \<open>ready_ && buf_->available() == 0\<close> under it (\<open>Pull_lock\<close>), and the guarded body
  (\<open>Pull_extinguish\<close>), after which the mutex is released.
\<close>

datatype consumer_state = Idle | After_pull | Lock_wanted | Holding_lock

datatype 'm action =
    Push 'm | Close | Wakeup
  | Pull_fetch nat | Pull_check | Pull_lock | Pull_extinguish

record 'm system =
  queue :: "'m subscriber_queue"
  pending_wakeups :: nat
  consumer :: consumer_state
  dst :: "'m list"

definition initial :: "'m system" where
  "initial =
     \<lparr>queue = \<lparr>buf = Some \<lparr>items = [], closed = False\<rparr>, ready = False, fx = 0\<rparr>,
      pending_wakeups = 0, consumer = Idle, dst = []\<rparr>"

text \<open>An action that cannot run in a state yields \<open>None\<close>.\<close>

fun perform :: "'m action \<Rightarrow> 'm system \<Rightarrow> 'm system option" where
  "perform (Push m) s =
     (case buf (queue s) of
        None \<Rightarrow> None
      | Some b \<Rightarrow>
          if closed b then None
          else Some (s\<lparr>queue := (queue s)\<lparr>buf := Some (b\<lparr>items := items b @ [m]\<rparr>)\<rparr>,
                       pending_wakeups :=
                         (if items b = [] then pending_wakeups s + 1 else pending_wakeups s)\<rparr>))"
| "perform Close s =
     (case buf (queue s) of
        None \<Rightarrow> None
      | Some b \<Rightarrow>
          if closed b then None
          else Some (s\<lparr>queue := (queue s)\<lparr>buf := Some (b\<lparr>closed := True\<rparr>)\<rparr>,
                       pending_wakeups :=
                         (if items b = [] then pending_wakeups s + 1 else pending_wakeups s)\<rparr>))"
| "perform Wakeup s =
     (if pending_wakeups s = 0 \<or> consumer s = Holding_lock then None
      else Some (s\<lparr>queue := on_producer_wakeup (queue s),
                   pending_wakeups := pending_wakeups s - 1\<rparr>))"
| "perform (Pull_fetch num) s =
     (if consumer s \<noteq> Idle \<or> num = 0 then None
      else (case buf (queue s) of
              None \<Rightarrow> Some s
            | Some b \<Rightarrow>
                (case buffer_pull num b of
                   (xs, still_open, b') \<Rightarrow>
                     if \<not> still_open
                     then Some (s\<lparr>queue := (extinguish (queue s))\<lparr>buf := None\<rparr>,
                                  dst := dst s @ xs\<rparr>)
                     else Some (s\<lparr>queue := (queue s)\<lparr>buf := Some b'\<rparr>,
                                  dst := dst s @ xs, consumer := After_pull\<rparr>))))"
| "perform Pull_check s =
     (if consumer s \<noteq> After_pull then None
      else (case buf (queue s) of
              None \<Rightarrow> None
            | Some b \<Rightarrow>
                Some (s\<lparr>consumer := (if available b = 0 then Lock_wanted else Idle)\<rparr>)))"
| "perform Pull_lock s =
     (if consumer s \<noteq> Lock_wanted then None
      else (case buf (queue s) of
              None \<Rightarrow> None
            | Some b \<Rightarrow>
                Some (s\<lparr>consumer :=
                         (if ready (queue s) \<and> available b = 0 then Holding_lock else Idle)\<rparr>)))"
| "perform Pull_extinguish s =
     (if consumer s \<noteq> Holding_lock then None
      else Some (s\<lparr>queue := (queue s)\<lparr>ready := False, fx := flare_extinguish (fx (queue s))\<rparr>,
                   consumer := Idle\<rparr>))"

fun run :: "'m action list \<Rightarrow> 'm system \<Rightarrow> 'm system option" where
  "run [] s = Some s"
| "run (a # as) s = (case perform a s of None \<Rightarrow> None | Some s' \<Rightarrow> run as s')"

text \<open>
  What every reachable state satisfies: the flare is armed iff \<open>ready_\<close> is set, it holds
  at most one byte, a non-empty buffer has the flag set or a wakeup on its way, and
  while the consumer holds the mutex to extinguish, the flag is set and whatever has
  arrived since its check has a wakeup on its way.
\<close>

definition wake_invariant :: "'m system \<Rightarrow> bool" where
  "wake_invariant s =
     (armed (fx (queue s)) = ready (queue s)
      \<and> fx (queue s) \<le> 1
      \<and> (\<forall>b. buf (queue s) = Some b \<longrightarrow> items b \<noteq> [] \<longrightarrow>
             ready (queue s) \<or> 0 < pending_wakeups s)
      \<and> (consumer s = Holding_lock \<longrightarrow>
             ready (queue s) \<and>
             (\<forall>b. buf (queue s) = Some b \<longrightarrow> items b \<noteq> [] \<longrightarrow> 0 < pending_wakeups s))
      \<and> (consumer s \<noteq> Idle \<longrightarrow> buf (queue s) \<noteq> None))"

lemma wake_invariant_initial: "wake_invariant initial"
  by (simp add: wake_invariant_def initial_def armed_def)

lemma wake_invariant_perform:
  "wake_invariant s \<Longrightarrow> perform a s = Some s' \<Longrightarrow> wake_invariant s'"
proof (cases a)
  case (Push m)
  then show "wake_invariant s \<Longrightarrow> perform a s = Some s' \<Longrightarrow> wake_invariant s'"
    by (auto simp: wake_invariant_def split: option.splits if_splits)
next
  case Close
  then show "wake_invariant s \<Longrightarrow> perform a s = Some s' \<Longrightarrow> wake_invariant s'"
    by (auto simp: wake_invariant_def split: option.splits if_splits)
next
  case Wakeup
  then show "wake_invariant s \<Longrightarrow> perform a s = Some s' \<Longrightarrow> wake_invariant s'"
    by (auto simp: wake_invariant_def on_producer_wakeup_def armed_def fire_def
          split: option.splits if_splits)
next
  case (Pull_fetch num)
  then show "wake_invariant s \<Longrightarrow> perform a s = Some s' \<Longrightarrow> wake_invariant s'"
    by (auto simp: wake_invariant_def buffer_pull_def extinguish_def armed_def
          flare_extinguish_def Let_def split: option.splits if_splits)
next
  case Pull_check
  then show "wake_invariant s \<Longrightarrow> perform a s = Some s' \<Longrightarrow> wake_invariant s'"
    by (auto simp: wake_invariant_def split: option.splits if_splits)
next
  case Pull_lock
  then show "wake_invariant s \<Longrightarrow> perform a s = Some s' \<Longrightarrow> wake_invariant s'"
    by (auto simp: wake_invariant_def available_def split: option.splits if_splits)
next
  case Pull_extinguish
  then show "wake_invariant s \<Longrightarrow> perform a s = Some s' \<Longrightarrow> wake_invariant s'"
    by (auto simp: wake_invariant_def armed_def flare_extinguish_def
          split: option.splits if_splits)
qed

lemma wake_invariant_run:
  "wake_invariant s \<Longrightarrow> run acts s = Some s' \<Longrightarrow> wake_invariant s'"
proof (induction acts arbitrary: s)
  case Nil
  then show ?case by simp
next
  case (Cons a acts)
  then show ?case
    by (auto split: option.splits dest: wake_invariant_perform)
qed

lemma on_producer_wakeup_idempotent:
  "on_producer_wakeup (on_producer_wakeup q) = on_producer_wakeup q"
  by (simp add: on_producer_wakeup_def)

lemma perform_clears_ready:
  assumes "perform a t = Some t'" and "ready (queue t)" and "\<not> ready (queue t')"
  shows "(a = Pull_extinguish \<and> consumer t = Holding_lock)
         \<or> (\<exists>n. a = Pull_fetch n \<and> buf (queue t') = None)"
  using assms
  by (cases a)
     (auto simp: on_producer_wakeup_def buffer_pull_def Let_def
        split: option.splits if_splits)

lemma perform_Pull_lock_holding:
  assumes "perform Pull_lock t = Some t'" and "consumer t' = Holding_lock"
  shows "ready (queue t) \<and> (\<exists>b. buf (queue t) = Some b \<and> available b = 0)"
  using assms by (auto split: option.splits if_splits)

text \<open>
  Run without interruption, the consumer's actions are \<open>pull\<close>: some prefix of the four
  takes an idle consumer to the queue and the \<open>dst_buf\<close> that \<open>pull\<close> returns.
\<close>

lemma pull_is_uninterrupted_run:
  assumes "0 < num"
  shows "\<exists>k. run (take k [Pull_fetch num, Pull_check, Pull_lock, Pull_extinguish])
              \<lparr>queue = q, pending_wakeups = p, consumer = Idle, dst = d\<rparr>
            = Some \<lparr>queue = snd (pull d num q), pending_wakeups = p, consumer = Idle,
                    dst = fst (pull d num q)\<rparr>"
proof (cases "buf q")
  case None
  then have "run (take 1 [Pull_fetch num, Pull_check, Pull_lock, Pull_extinguish])
              \<lparr>queue = q, pending_wakeups = p, consumer = Idle, dst = d\<rparr>
            = Some \<lparr>queue = snd (pull d num q), pending_wakeups = p, consumer = Idle,
                    dst = fst (pull d num q)\<rparr>"
    using assms by (simp add: pull_def)
  then show ?thesis by blast
next
  case (Some b)
  obtain xs still_open b' where bp: "buffer_pull num b = (xs, still_open, b')"
    by (cases "buffer_pull num b") auto
  show ?thesis
  proof (cases still_open)
    case False
    have "run (take 1 [Pull_fetch num, Pull_check, Pull_lock, Pull_extinguish])
              \<lparr>queue = q, pending_wakeups = p, consumer = Idle, dst = d\<rparr>
            = Some \<lparr>queue = snd (pull d num q), pending_wakeups = p, consumer = Idle,
                    dst = fst (pull d num q)\<rparr>"
      using assms Some bp False by (simp add: pull_def)
    then show ?thesis by blast
  next
    case True
    show ?thesis
    proof (cases "available b' = 0")
      case nonzero: False
      have "run (take 2 [Pull_fetch num, Pull_check, Pull_lock, Pull_extinguish])
              \<lparr>queue = q, pending_wakeups = p, consumer = Idle, dst = d\<rparr>
            = Some \<lparr>queue = snd (pull d num q), pending_wakeups = p, consumer = Idle,
                    dst = fst (pull d num q)\<rparr>"
        using assms Some bp True nonzero by (simp add: pull_def numeral_2_eq_2)
      then show ?thesis by blast
    next
      case zero: True
      show ?thesis
      proof (cases "ready q")
        case notready: False
        have "run (take 3 [Pull_fetch num, Pull_check, Pull_lock, Pull_extinguish])
              \<lparr>queue = q, pending_wakeups = p, consumer = Idle, dst = d\<rparr>
            = Some \<lparr>queue = snd (pull d num q), pending_wakeups = p, consumer = Idle,
                    dst = fst (pull d num q)\<rparr>"
          using assms Some bp True zero notready by (simp add: pull_def numeral_3_eq_3)
        then show ?thesis by blast
      next
        case isready: True
        have "run (take 4 [Pull_fetch num, Pull_check, Pull_lock, Pull_extinguish])
              \<lparr>queue = q, pending_wakeups = p, consumer = Idle, dst = d\<rparr>
            = Some \<lparr>queue = snd (pull d num q), pending_wakeups = p, consumer = Idle,
                    dst = fst (pull d num q)\<rparr>"
          using assms Some bp True zero isready by (simp add: pull_def)
        then show ?thesis by blast
      qed
    qed
  qed
qed

text \<open>
  Claim C7. In every state that a schedule of the producer's and the consumer's actions
  reaches from the initial queue, the flare is armed iff the ready flag is set, and the
  flare holds at most one byte; a non-empty buffer whose producer owes no wakeup has the
  flag set, so no wake is lost. \<open>on_producer_wakeup\<close> fires the flare only when the
  flag is not set, and a second call changes nothing. An action clears the flag only
  as the guarded body of \<open>pull\<close>, run while the consumer holds the mutex, or as the
  flow's end; the consumer holds the mutex for that body only after it has found,
  under the mutex, the flag set and \<open>available()\<close> zero. Run without interruption, the
  consumer's actions are \<open>pull\<close>.
\<close>

theorem subscriber_queue_wake_not_lost:
  "(run acts initial = Some s \<longrightarrow>
      armed (fx (queue s)) = ready (queue s)
      \<and> fx (queue s) \<le> 1
      \<and> (\<forall>b. buf (queue s) = Some b \<and> items b \<noteq> [] \<and> pending_wakeups s = 0
             \<longrightarrow> ready (queue s)))
   \<and> fx (on_producer_wakeup q) = (if ready q then fx q else fire (fx q))
   \<and> on_producer_wakeup (on_producer_wakeup q) = on_producer_wakeup q
   \<and> (perform a t = Some t' \<and> ready (queue t) \<and> \<not> ready (queue t') \<longrightarrow>
        (a = Pull_extinguish \<and> consumer t = Holding_lock)
        \<or> (\<exists>n. a = Pull_fetch n \<and> buf (queue t') = None))
   \<and> (perform Pull_lock t = Some t' \<and> consumer t' = Holding_lock \<longrightarrow>
        ready (queue t) \<and> (\<exists>b. buf (queue t) = Some b \<and> available b = 0))
   \<and> (0 < num \<longrightarrow>
        (\<exists>k. run (take k [Pull_fetch num, Pull_check, Pull_lock, Pull_extinguish])
                \<lparr>queue = q, pending_wakeups = p, consumer = Idle, dst = d\<rparr>
              = Some \<lparr>queue = snd (pull d num q), pending_wakeups = p, consumer = Idle,
                      dst = fst (pull d num q)\<rparr>))"
proof -
  have inv: "run acts initial = Some s \<Longrightarrow> wake_invariant s"
    using wake_invariant_initial wake_invariant_run by blast
  have reach: "run acts initial = Some s \<longrightarrow>
      armed (fx (queue s)) = ready (queue s)
      \<and> fx (queue s) \<le> 1
      \<and> (\<forall>b. buf (queue s) = Some b \<and> items b \<noteq> [] \<and> pending_wakeups s = 0
             \<longrightarrow> ready (queue s))"
    using inv by (auto simp: wake_invariant_def)
  have fires: "fx (on_producer_wakeup q) = (if ready q then fx q else fire (fx q))"
    by (simp add: on_producer_wakeup_def)
  show ?thesis
    using reach fires on_producer_wakeup_idempotent [of q]
      perform_clears_ready [of a t t'] perform_Pull_lock_holding [of t t']
      pull_is_uninterrupted_run [of num q p d]
    by blast
qed

text \<open>
  A race: the consumer drains the buffer and decides, under the mutex, to extinguish;
  the producer pushes a second item before the flare is drained, and its wakeup waits
  for the mutex. At the end the buffer holds the item, the flag is set and the flare is
  armed.
\<close>

theorem subscriber_queue_wake_not_lost_witness:
  "run [Push 1, Wakeup, Pull_fetch 1, Pull_check, Pull_lock, Push 2, Pull_extinguish, Wakeup]
       initial
     = Some \<lparr>queue = \<lparr>buf = Some \<lparr>items = [2 :: nat], closed = False\<rparr>, ready = True, fx = 1\<rparr>,
             pending_wakeups = 0, consumer = Idle, dst = [1]\<rparr>
   \<and> armed (fx \<lparr>buf = Some \<lparr>items = [2 :: nat], closed = False\<rparr>, ready = True, fx = 1\<rparr>)
   \<and> perform Pull_lock
        \<lparr>queue = \<lparr>buf = Some \<lparr>items = [] :: nat list, closed = False\<rparr>, ready = True, fx = 1\<rparr>,
         pending_wakeups = 0, consumer = Lock_wanted, dst = [1]\<rparr>
      = Some \<lparr>queue = \<lparr>buf = Some \<lparr>items = [], closed = False\<rparr>, ready = True, fx = 1\<rparr>,
              pending_wakeups = 0, consumer = Holding_lock, dst = [1]\<rparr>
   \<and> pull [] 1 \<lparr>buf = Some \<lparr>items = [1 :: nat], closed = False\<rparr>, ready = True, fx = 1\<rparr>
      = ([1], \<lparr>buf = Some \<lparr>items = [], closed = False\<rparr>, ready = False, fx = 0\<rparr>)"
proof -
  let ?s = "\<lparr>queue = \<lparr>buf = Some \<lparr>items = [2 :: nat], closed = False\<rparr>, ready = True, fx = 1\<rparr>,
             pending_wakeups = 0, consumer = Idle, dst = [1]\<rparr>"
  have r: "run [Push 1, Wakeup, Pull_fetch 1, Pull_check, Pull_lock, Push 2, Pull_extinguish, Wakeup]
       initial = Some ?s"
    by (simp add: initial_def on_producer_wakeup_def fire_def buffer_pull_def available_def
          flare_extinguish_def)
  have "armed (fx (queue ?s)) = ready (queue ?s)"
    using r subscriber_queue_wake_not_lost
      [of "[Push 1, Wakeup, Pull_fetch 1, Pull_check, Pull_lock, Push 2, Pull_extinguish, Wakeup]" ?s]
    by blast
  then have a: "armed (fx \<lparr>buf = Some \<lparr>items = [2 :: nat], closed = False\<rparr>, ready = True, fx = 1\<rparr>)"
    by simp
  have l: "perform Pull_lock
        \<lparr>queue = \<lparr>buf = Some \<lparr>items = [] :: nat list, closed = False\<rparr>, ready = True, fx = 1\<rparr>,
         pending_wakeups = 0, consumer = Lock_wanted, dst = [1]\<rparr>
      = Some \<lparr>queue = \<lparr>buf = Some \<lparr>items = [], closed = False\<rparr>, ready = True, fx = 1\<rparr>,
              pending_wakeups = 0, consumer = Holding_lock, dst = [1]\<rparr>"
    by (simp add: available_def)
  have p: "pull [] 1 \<lparr>buf = Some \<lparr>items = [1 :: nat], closed = False\<rparr>, ready = True, fx = 1\<rparr>
      = ([1], \<lparr>buf = Some \<lparr>items = [], closed = False\<rparr>, ready = False, fx = 0\<rparr>)"
    by (simp add: pull_def buffer_pull_def available_def flare_extinguish_def)
  from r a l p show ?thesis by blast
qed

section \<open>Topics and filters\<close>

text \<open>
  Modelled from the spec: the classes \<open>topic\<close> and \<open>filter_type\<close> and the functions on
  them, which are outside the files at hand. A topic is a \<open>/\<close>-separated string and a
  filter a set of topics, kept as a sorted sequence. "A topic \<open>t\<close> is covered by filter \<open>F\<close> iff some
  \<open>p \<in> F\<close> is a prefix of \<open>t\<close> on \<open>/\<close>-boundaries (i.e., \<open>t == p\<close> or \<open>t\<close> begins with
  \<open>p + "/"\<close>)."
\<close>

type_synonym topic = string

type_synonym filter_type = "topic list"

definition prefix_of :: "topic \<Rightarrow> topic \<Rightarrow> bool" where
  "prefix_of p t = (t = p \<or> prefix (p @ ''/'') t)"

definition covers :: "filter_type \<Rightarrow> topic \<Rightarrow> bool" where
  "covers F t = (\<exists>p \<in> set F. prefix_of p t)"

text \<open>
  Modelled from the spec: insertion into a filter and the merge of two filters, which
  are outside the files at hand. "Insertion: if the new topic is covered by an existing
  entry, the filter is unchanged; otherwise, the new topic is inserted and any entries it
  covers are removed. [...] Merging filters is set union with canonicalization."
\<close>

definition filter_insert :: "topic \<Rightarrow> filter_type \<Rightarrow> filter_type" where
  "filter_insert t F =
     (if covers F t then F else insort t (filter (\<lambda>e. \<not> prefix_of t e) F))"

definition filter_merge :: "filter_type \<Rightarrow> filter_type \<Rightarrow> filter_type" where
  "filter_merge F G = fold filter_insert G F"

text \<open>
  Modelled from the spec: the union that \<open>endpoint::peer_subscriptions()\<close> returns; the
  endpoint is outside the files at hand. It is the "union of inbound peer filters",
  the merge of the filters received from the peers.
\<close>

definition merge_filters :: "filter_type list \<Rightarrow> filter_type" where
  "merge_filters Fs = fold (\<lambda>G F. filter_merge F G) Fs []"

section \<open>Endpoints, routing and peering\<close>

text \<open>
  Modelled from the spec: the endpoint, its core actor and the peering layer, which are
  outside the files at hand (the integration test drives them): the peer record
  \<open>(endpoint_id, network_address, filter, status)\<close>, the status and error codes, the
  routing table with its \<open>dispatch\<close>, and the peer session's connect, retry and unpeer.
  An endpoint's id is its host name, so an address \<open>(host, port)\<close> names the endpoint
  \<open>host\<close>, reachable while it listens on \<open>port\<close>.
\<close>

type_synonym endpoint_id = string

type_synonym network_address = "string \<times> nat"

type_synonym data_message = "topic \<times> data"

type_synonym queue_ref = nat

datatype peer_status =
  initialized | connecting | reconnecting | peered | disconnected | unknown

datatype sc =
  peer_added | peer_removed | peer_lost | endpoint_discovered | endpoint_unreachable

datatype ec =
    peer_invalid | peer_unavailable | peer_incompatible | peer_timeout
  | invalid_data | type_clash | backend_failure | no_such_key

datatype event_value = Status sc | Error ec

text \<open>
  Modelled from the spec: the peer record, with what the session keeps for the retry:
  the interval asked for (\<open>0\<close> for none) and the time of the next attempt. The side that accepted a connection
  has no address for its peer.
\<close>

record peer_info =
  peer_id :: endpoint_id
  peer_address :: "network_address option"
  inbound_filter :: filter_type
  peer_state :: peer_status
  retry_interval :: nat
  next_attempt :: nat

text \<open>
  Modelled from the spec: the state of an endpoint. The routing table
  (\<open>local_subscribers\<close> and the peers with their filters), the subscriber queues (a \<open>queue_ref\<close> is a position in \<open>queues\<close>), the frames written to
  each peer session, the status bus as the sequence of events emitted, and the port the
  acceptor is bound to.
\<close>

record endpoint =
  local_subscribers :: "(filter_type \<times> queue_ref) list"
  queues :: "data_message list list"
  peers :: "peer_info list"
  sessions :: "endpoint_id \<Rightarrow> data_message list"
  status_bus :: "event_value list"
  listening :: "nat option"
  protocol_version :: nat

definition new_endpoint :: endpoint where
  "new_endpoint =
     \<lparr>local_subscribers = [], queues = [], peers = [],
      sessions = (\<lambda>p. []), status_bus = [], listening = None, protocol_version = 1\<rparr>"

subsection \<open>The routing table\<close>

datatype source = Local | Peer endpoint_id

definition add_local :: "filter_type \<Rightarrow> queue_ref \<Rightarrow> endpoint \<Rightarrow> endpoint" where
  "add_local F q ep = ep\<lparr>local_subscribers := local_subscribers ep @ [(F, q)]\<rparr>"

definition update_local :: "queue_ref \<Rightarrow> filter_type \<Rightarrow> endpoint \<Rightarrow> endpoint" where
  "update_local q F' ep =
     ep\<lparr>local_subscribers :=
          map (\<lambda>(F, r). if r = q then (F', r) else (F, r)) (local_subscribers ep)\<rparr>"

definition remove_local :: "queue_ref \<Rightarrow> endpoint \<Rightarrow> endpoint" where
  "remove_local q ep =
     ep\<lparr>local_subscribers := filter (\<lambda>(F, r). r \<noteq> q) (local_subscribers ep)\<rparr>"

definition set_peer_filter :: "endpoint_id \<Rightarrow> filter_type \<Rightarrow> endpoint \<Rightarrow> endpoint" where
  "set_peer_filter p F ep =
     ep\<lparr>peers := map (\<lambda>r. if peer_id r = p then r\<lparr>inbound_filter := F\<rparr> else r) (peers ep)\<rparr>"

definition remove_peer :: "endpoint_id \<Rightarrow> endpoint \<Rightarrow> endpoint" where
  "remove_peer p ep = ep\<lparr>peers := filter (\<lambda>r. peer_id r \<noteq> p) (peers ep)\<rparr>"

definition aggregate_local_filter :: "endpoint \<Rightarrow> filter_type" where
  "aggregate_local_filter ep = merge_filters (map fst (local_subscribers ep))"

definition peer_subscriptions :: "endpoint \<Rightarrow> filter_type" where
  "peer_subscriptions ep = merge_filters (map inbound_filter (peers ep))"

text \<open>
  Modelled from the spec: \<open>subscribe(filter)\<close> "installs a local subscriber" and returns
  its queue, a new one.
\<close>

definition subscribe :: "filter_type \<Rightarrow> endpoint \<Rightarrow> endpoint" where
  "subscribe F ep = add_local F (length (queues ep)) (ep\<lparr>queues := queues ep @ [[]]\<rparr>)"

text \<open>
  Modelled from the spec: "For each local subscriber whose filter covers \<open>msg.topic\<close>,
  enqueue [...]. For each peer whose filter covers \<open>msg.topic\<close> and whose id \<open>\<noteq> source\<close>,
  forward over that peer's session." A queue is the sequence of messages enqueued: a
  full queue blocks the producer and loses nothing. Only a session in status \<open>peered\<close>
  carries messages.
\<close>

definition enqueue :: "queue_ref \<Rightarrow> data_message \<Rightarrow> endpoint \<Rightarrow> endpoint" where
  "enqueue q m ep = ep\<lparr>queues := (queues ep)[q := queues ep ! q @ [m]]\<rparr>"

definition queue_contents :: "endpoint \<Rightarrow> queue_ref \<Rightarrow> data_message list" where
  "queue_contents ep q = (if q < length (queues ep) then queues ep ! q else [])"

definition forward :: "endpoint_id \<Rightarrow> data_message \<Rightarrow> endpoint \<Rightarrow> endpoint" where
  "forward p m ep = ep\<lparr>sessions := (sessions ep)(p := sessions ep p @ [m])\<rparr>"

definition forward_targets :: "data_message \<Rightarrow> source \<Rightarrow> endpoint \<Rightarrow> endpoint_id list" where
  "forward_targets m src ep =
     map peer_id
       (filter (\<lambda>r. peer_state r = peered \<and> covers (inbound_filter r) (fst m)
                    \<and> Peer (peer_id r) \<noteq> src)
          (peers ep))"

definition dispatch :: "data_message \<Rightarrow> source \<Rightarrow> endpoint \<Rightarrow> endpoint" where
  "dispatch m src ep =
     (let ep1 = fold (\<lambda>(F, q) e. if covers F (fst m) then enqueue q m e else e)
                  (local_subscribers ep) ep
      in fold (\<lambda>p e. forward p m e) (forward_targets m src ep1) ep1)"

text \<open>
  Modelled from the spec: the endpoint "executes all mutations of routing/peer state on
  a single logical core task"; a run applies its commands in order.
\<close>

datatype command =
    Subscribe filter_type
  | Update_local queue_ref filter_type
  | Remove_local queue_ref
  | Set_peer_filter endpoint_id filter_type
  | Remove_peer endpoint_id
  | Dispatch data_message source

fun execute :: "command \<Rightarrow> endpoint \<Rightarrow> endpoint" where
  "execute (Subscribe F) ep = subscribe F ep"
| "execute (Update_local q F) ep = update_local q F ep"
| "execute (Remove_local q) ep = remove_local q ep"
| "execute (Set_peer_filter p F) ep = set_peer_filter p F ep"
| "execute (Remove_peer p) ep = remove_peer p ep"
| "execute (Dispatch m src) ep = dispatch m src ep"

fun execute_all :: "command list \<Rightarrow> endpoint \<Rightarrow> endpoint" where
  "execute_all [] ep = ep"
| "execute_all (c # cs) ep = execute_all cs (execute c ep)"

text \<open>
  What the spec promises a subscriber: of the messages dispatched, in order, those whose
  topic its filter covered when they were dispatched.
\<close>

definition subscribed :: "queue_ref \<Rightarrow> topic \<Rightarrow> endpoint \<Rightarrow> bool" where
  "subscribed q t ep = (\<exists>(F, r) \<in> set (local_subscribers ep). r = q \<and> covers F t)"

fun expected_messages :: "queue_ref \<Rightarrow> command list \<Rightarrow> endpoint \<Rightarrow> data_message list" where
  "expected_messages q [] ep = []"
| "expected_messages q (Dispatch m src # cs) ep =
     (if subscribed q (fst m) ep then m # expected_messages q cs (execute (Dispatch m src) ep)
      else expected_messages q cs (execute (Dispatch m src) ep))"
| "expected_messages q (c # cs) ep = expected_messages q cs (execute c ep)"

definition forwards_to :: "endpoint_id \<Rightarrow> data_message \<Rightarrow> source \<Rightarrow> endpoint \<Rightarrow> bool" where
  "forwards_to p m src ep =
     (\<exists>r \<in> set (peers ep). peer_id r = p \<and> peer_state r = peered
         \<and> covers (inbound_filter r) (fst m) \<and> Peer p \<noteq> src)"

fun expected_frames :: "endpoint_id \<Rightarrow> command list \<Rightarrow> endpoint \<Rightarrow> data_message list" where
  "expected_frames p [] ep = []"
| "expected_frames p (Dispatch m src # cs) ep =
     (if forwards_to p m src ep then m # expected_frames p cs (execute (Dispatch m src) ep)
      else expected_frames p cs (execute (Dispatch m src) ep))"
| "expected_frames p (c # cs) ep = expected_frames p cs (execute c ep)"

text \<open>Every queue belongs to one subscriber, and a peer has one record.\<close>

definition routing_invariant :: "endpoint \<Rightarrow> bool" where
  "routing_invariant ep =
     (distinct (map snd (local_subscribers ep))
      \<and> (\<forall>(F, q) \<in> set (local_subscribers ep). q < length (queues ep))
      \<and> distinct (map peer_id (peers ep)))"

subsection \<open>The mesh\<close>

text \<open>
  Modelled from the spec: the mesh of endpoints. The endpoints by id, the ids in the
  order of creation, the clock, and the bound on the hops of a forwarded message (the
  frame's hop counter, \<open>max_hops\<close>).
\<close>

record network =
  eps :: "endpoint_id \<Rightarrow> endpoint option"
  ids :: "endpoint_id list"
  clock :: nat
  max_hops :: nat

definition make_network :: "endpoint_id list \<Rightarrow> network" where
  "make_network names =
     \<lparr>eps = (\<lambda>i. if i \<in> set names then Some new_endpoint else None),
      ids = names, clock = 0, max_hops = 16\<rparr>"

definition modify :: "endpoint_id \<Rightarrow> (endpoint \<Rightarrow> endpoint) \<Rightarrow> network \<Rightarrow> network" where
  "modify i f net =
     (case eps net i of
        None \<Rightarrow> net
      | Some ep \<Rightarrow> net\<lparr>eps := (eps net)(i := Some (f ep))\<rparr>)"

definition emit :: "endpoint_id \<Rightarrow> event_value \<Rightarrow> network \<Rightarrow> network" where
  "emit i e net = modify i (\<lambda>ep. ep\<lparr>status_bus := status_bus ep @ [e]\<rparr>) net"

definition bus :: "network \<Rightarrow> endpoint_id \<Rightarrow> event_value list" where
  "bus net i = (case eps net i of None \<Rightarrow> [] | Some ep \<Rightarrow> status_bus ep)"

definition received :: "network \<Rightarrow> endpoint_id \<Rightarrow> queue_ref \<Rightarrow> data_message list" where
  "received net i q = (case eps net i of None \<Rightarrow> [] | Some ep \<Rightarrow> queue_contents ep q)"

definition peers_of :: "network \<Rightarrow> endpoint_id \<Rightarrow> peer_info list" where
  "peers_of net i = (case eps net i of None \<Rightarrow> [] | Some ep \<Rightarrow> peers ep)"

text \<open>
  Modelled from the spec: the path of a published message, which the endpoint and its
  sessions (outside the files at hand) implement. It is dispatched at its endpoint with
  source \<open>local\<close>; a frame forwarded to a peer is dispatched there with the sender as source.
  Each hop uses up one of the frame's hops.
\<close>

fun deliver :: "nat \<Rightarrow> data_message \<Rightarrow> source \<Rightarrow> endpoint_id \<Rightarrow> network \<Rightarrow> network" where
  "deliver 0 m src i net = net"
| "deliver (Suc hops) m src i net =
     (case eps net i of
        None \<Rightarrow> net
      | Some ep \<Rightarrow>
          fold (\<lambda>p n. deliver hops m (Peer i) p n)
            (forward_targets m src ep)
            (net\<lparr>eps := (eps net)(i := Some (dispatch m src ep))\<rparr>))"

definition publish :: "endpoint_id \<Rightarrow> data_message \<Rightarrow> network \<Rightarrow> network" where
  "publish i m net = deliver (max_hops net) m Local i net"

text \<open>
  Modelled from the spec: the propagation of filters, "when a local filter changes, F
  pushes the union of local filters to each peer session; likewise, a peer's filter is
  stored in D."
\<close>

definition push_filter :: "endpoint_id \<Rightarrow> network \<Rightarrow> network" where
  "push_filter i net =
     (case eps net i of
        None \<Rightarrow> net
      | Some ep \<Rightarrow>
          fold (\<lambda>r n. modify (peer_id r) (set_peer_filter i (aggregate_local_filter ep)) n)
            (filter (\<lambda>r. peer_state r = peered) (peers ep)) net)"

definition subscribe_at :: "endpoint_id \<Rightarrow> filter_type \<Rightarrow> network \<Rightarrow> network" where
  "subscribe_at i F net = push_filter i (modify i (subscribe F) net)"

definition listen :: "endpoint_id \<Rightarrow> nat \<Rightarrow> network \<Rightarrow> network" where
  "listen i port net = modify i (\<lambda>ep. ep\<lparr>listening := Some port\<rparr>) net"

subsection \<open>The peer session: connect, retry, unpeer\<close>

definition has_address :: "network_address \<Rightarrow> peer_info \<Rightarrow> bool" where
  "has_address a r = (peer_address r = Some a)"

definition drop_session :: "network_address \<Rightarrow> endpoint \<Rightarrow> endpoint" where
  "drop_session a ep = ep\<lparr>peers := filter (\<lambda>r. \<not> has_address a r) (peers ep)\<rparr>"

text \<open>
  Modelled from the spec: one connect attempt of the session of \<open>i\<close> to the address
  \<open>a\<close>. Where no acceptor listens, the attempt fails: the endpoint emits
  \<open>peer_unavailable\<close>, and the session sleeps for its retry interval (status
  \<open>reconnecting\<close>) or, without one, ends. Where one listens, both sides send HELLO: a
  session to oneself is closed with \<open>peer_invalid\<close>, one between different versions
  with \<open>peer_incompatible\<close>, and one between two endpoints that are peered already (a
  duplicate \<open>endpoint_id\<close>) with \<open>peer_invalid\<close>, the established session staying as it
  is; otherwise both sides are \<open>peered\<close>, emit \<open>peer_added\<close> and exchange their aggregate
  local filters.
\<close>

definition acceptor_at :: "network \<Rightarrow> network_address \<Rightarrow> endpoint option" where
  "acceptor_at net a =
     (case eps net (fst a) of
        None \<Rightarrow> None
      | Some remote \<Rightarrow> if listening remote = Some (snd a) then Some remote else None)"

definition schedule_retry :: "network_address \<Rightarrow> nat \<Rightarrow> endpoint \<Rightarrow> endpoint" where
  "schedule_retry a t ep =
     ep\<lparr>peers := map (\<lambda>x. if has_address a x
                           then x\<lparr>peer_state := reconnecting, next_attempt := t\<rparr>
                           else x) (peers ep)\<rparr>"

definition connect_failed :: "endpoint_id \<Rightarrow> network_address \<Rightarrow> peer_info \<Rightarrow> network \<Rightarrow> network" where
  "connect_failed i a r net =
     emit i (Error peer_unavailable)
       (modify i
          (if 0 < retry_interval r then schedule_retry a (clock net + retry_interval r)
           else drop_session a)
          net)"

definition session_peered :: "network_address \<Rightarrow> filter_type \<Rightarrow> endpoint \<Rightarrow> endpoint" where
  "session_peered a F ep =
     ep\<lparr>peers := map (\<lambda>x. if has_address a x
                           then x\<lparr>peer_id := fst a, inbound_filter := F, peer_state := peered\<rparr>
                           else x) (peers ep)\<rparr>"

definition accept_peer :: "endpoint_id \<Rightarrow> filter_type \<Rightarrow> endpoint \<Rightarrow> endpoint" where
  "accept_peer i F ep =
     ep\<lparr>peers := peers ep @
          [\<lparr>peer_id = i, peer_address = None, inbound_filter = F, peer_state = peered,
            retry_interval = 0, next_attempt = 0\<rparr>]\<rparr>"

definition already_peered :: "endpoint_id \<Rightarrow> endpoint \<Rightarrow> bool" where
  "already_peered p ep = (\<exists>r \<in> set (peers ep). peer_id r = p \<and> peer_state r = peered)"

definition handshake ::
  "endpoint_id \<Rightarrow> network_address \<Rightarrow> endpoint \<Rightarrow> endpoint \<Rightarrow> network \<Rightarrow> network" where
  "handshake i a ep remote net =
     (if fst a = i then emit i (Error peer_invalid) (modify i (drop_session a) net)
      else if protocol_version remote \<noteq> protocol_version ep
      then emit i (Error peer_incompatible) (modify i (drop_session a) net)
      else if already_peered (fst a) ep \<or> already_peered i remote
      then emit i (Error peer_invalid) (modify i (drop_session a) net)
      else emit (fst a) (Status peer_added)
             (modify (fst a) (accept_peer i (aggregate_local_filter ep))
                (emit i (Status peer_added)
                   (modify i (session_peered a (aggregate_local_filter remote)) net))))"

definition attempt :: "endpoint_id \<Rightarrow> network_address \<Rightarrow> network \<Rightarrow> network" where
  "attempt i a net =
     (case eps net i of
        None \<Rightarrow> net
      | Some ep \<Rightarrow>
          (case filter (has_address a) (peers ep) of
             [] \<Rightarrow> net
           | r # _ \<Rightarrow>
               (case acceptor_at net a of
                  None \<Rightarrow> connect_failed i a r net
                | Some remote \<Rightarrow> handshake i a ep remote net)))"

text \<open>
  Modelled from the spec: \<open>peer(host, port, retry)\<close> "initiates an outbound session"; the
  session makes its first attempt at once. An address that has a session already is
  left alone.
\<close>

definition new_session :: "network_address \<Rightarrow> nat \<Rightarrow> nat \<Rightarrow> endpoint \<Rightarrow> endpoint" where
  "new_session a retry now ep =
     ep\<lparr>peers := peers ep @
          [\<lparr>peer_id = fst a, peer_address = Some a, inbound_filter = [],
            peer_state = connecting, retry_interval = retry, next_attempt = now\<rparr>]\<rparr>"

definition peer :: "endpoint_id \<Rightarrow> network_address \<Rightarrow> nat \<Rightarrow> network \<Rightarrow> network" where
  "peer i a retry net =
     (if \<exists>r \<in> set (peers_of net i). has_address a r then net
      else attempt i a (modify i (new_session a retry (clock net)) net))"

text \<open>
  Modelled from the spec: the retry, "on \<open>disconnected\<close> due to connect/IO failure the
  session re-enters \<open>reconnecting\<close>, sleeps \<open>r\<close>, and tries again". Time passes in ticks;
  at each tick every session that is \<open>reconnecting\<close> and whose sleep is over tries again.
\<close>

definition due_addresses :: "nat \<Rightarrow> peer_info list \<Rightarrow> network_address list" where
  "due_addresses now rs =
     concat (map (\<lambda>r. case peer_address r of
                        None \<Rightarrow> []
                      | Some a \<Rightarrow>
                          if peer_state r = reconnecting \<and> next_attempt r \<le> now then [a]
                          else [])
               rs)"

definition retry_due :: "endpoint_id \<Rightarrow> network \<Rightarrow> network" where
  "retry_due i net =
     fold (\<lambda>a n. attempt i a n) (due_addresses (clock net) (peers_of net i)) net"

definition tick :: "network \<Rightarrow> network" where
  "tick net = fold retry_due (ids net) (net\<lparr>clock := clock net + 1\<rparr>)"

fun ticks :: "nat \<Rightarrow> network \<Rightarrow> network" where
  "ticks 0 net = net"
| "ticks (Suc n) net = ticks n (tick net)"

text \<open>
  Modelled from the spec: \<open>unpeer(host, port)\<close>. "Unpeer. Sends GOODBYE, closes the transport, emits
  \<open>peer_removed\<close> locally. The remote side, on socket close or GOODBYE, emits
  \<open>peer_lost\<close>. \<open>unpeer\<close> to an unknown address emits error \<open>peer_invalid\<close> locally and
  leaves no peer record." A session that was still retrying has no remote side.
\<close>

definition unpeer :: "endpoint_id \<Rightarrow> network_address \<Rightarrow> network \<Rightarrow> network" where
  "unpeer i a net =
     (case filter (has_address a) (peers_of net i) of
        [] \<Rightarrow> emit i (Error peer_invalid) net
      | r # _ \<Rightarrow>
          (let net1 = emit i (Status peer_removed) (modify i (drop_session a) net)
           in if peer_state r = peered
              then emit (peer_id r) (Status peer_lost) (modify (peer_id r) (remove_peer i) net1)
              else net1))"

subsection \<open>The scenarios\<close>

text \<open>
  The triangle of the integration test: \<open>M\<close> listens on port 4040, \<open>V\<close> and \<open>E\<close> peer to
  it; then \<open>V\<close> subscribes to \<open>zeek/events\<close> and \<open>E\<close> to \<open>zeek/events/errors\<close>.
\<close>

definition triangle :: network where
  "triangle =
     peer ''E'' (''M'', 4040) 0
       (peer ''V'' (''M'', 4040) 0
          (listen ''M'' 4040 (make_network [''M'', ''V'', ''E''])))"

definition triangle_subscribed :: network where
  "triangle_subscribed =
     subscribe_at ''E'' [''zeek/events/errors'']
       (subscribe_at ''V'' [''zeek/events''] triangle)"

definition triangle_published :: network where
  "triangle_published =
     publish ''M'' (''zeek/events/data'', d_integer 456)
       (publish ''M'' (''zeek/events/data'', d_integer 123)
          (publish ''M'' (''zeek/events/errors'', d_string ''sorry!'')
             (publish ''M'' (''zeek/events/errors'', d_string ''oops'')
                triangle_subscribed)))"

subsection \<open>Notions used in the proofs\<close>

text \<open>
  The canonical form of a filter: sorted, without duplicates, and no entry covered by
  another.
\<close>

definition canonical :: "filter_type \<Rightarrow> bool" where
  "canonical F =
     (sorted F \<and> distinct F \<and> (\<forall>a \<in> set F. \<forall>b \<in> set F. a \<noteq> b \<longrightarrow> \<not> prefix_of a b))"

text \<open>
  The messages of one source: a run restricted to the dispatches of that source (and
  all other commands) expects a subsequence of what the full run expects.
\<close>

definition from_source :: "source \<Rightarrow> command list \<Rightarrow> command list" where
  "from_source src cmds =
     filter (\<lambda>c. case c of Dispatch m s \<Rightarrow> s = src | _ \<Rightarrow> True) cmds"

text \<open>
  A mesh in which nothing is peered yet: no endpoint has a peer record.
\<close>

definition unpeered :: "network \<Rightarrow> bool" where
  "unpeered net = (\<forall>i ep. eps net i = Some ep \<longrightarrow> peers ep = [])"

text \<open>
  The states the proof goes through: \<open>v\<close> has one session, to \<open>a\<close>, asleep until \<open>t\<close>,
  and has emitted \<open>peer_unavailable\<close> \<open>n\<close> times; the clock shows \<open>c\<close>.
\<close>

definition retry_session :: "network_address \<Rightarrow> nat \<Rightarrow> nat \<Rightarrow> peer_info" where
  "retry_session a r t =
     \<lparr>peer_id = fst a, peer_address = Some a, inbound_filter = [],
      peer_state = reconnecting, retry_interval = r, next_attempt = t\<rparr>"

definition waiting ::
  "network \<Rightarrow> endpoint_id \<Rightarrow> network_address \<Rightarrow> nat \<Rightarrow> nat \<Rightarrow> nat \<Rightarrow> nat \<Rightarrow> network" where
  "waiting net v a r n t c =
     (modify v
        (\<lambda>e. e\<lparr>peers := [retry_session a r t],
               status_bus := status_bus e @ replicate n (Error peer_unavailable)\<rparr>)
        net)\<lparr>clock := c\<rparr>"

definition quiescent :: "network \<Rightarrow> bool" where
  "quiescent net = (\<forall>i. \<forall>x \<in> set (peers_of net i). peer_state x \<noteq> reconnecting)"

subsection \<open>Filters stay canonical\<close>

lemma prefix_of_refl: "prefix_of p p"
  by (simp add: prefix_of_def)

lemma prefix_of_trans: "prefix_of a b \<Longrightarrow> prefix_of b c \<Longrightarrow> prefix_of a c"
proof -
  assume ab: "prefix_of a b" and bc: "prefix_of b c"
  show ?thesis
  proof (cases "b = a \<or> c = b")
    case True
    with ab bc show ?thesis by auto
  next
    case False
    with ab bc have 1: "prefix (a @ ''/'') b" and 2: "prefix (b @ ''/'') c"
      unfolding prefix_of_def by blast+
    from 1 have "prefix (a @ ''/'') (b @ ''/'')" by (rule prefix_prefix)
    from this 2 have "prefix (a @ ''/'') c" by (rule prefix_order.trans)
    then show ?thesis unfolding prefix_of_def by blast
  qed
qed

lemma set_filter_insert:
  "set (filter_insert t F) =
     (if covers F t then set F else insert t {e \<in> set F. \<not> prefix_of t e})"
  by (simp add: filter_insert_def set_insort_key)

lemma covers_filter_insert: "covers (filter_insert t F) u = (covers F u \<or> prefix_of t u)"
proof (cases "covers F t")
  case True
  then show ?thesis
    by (auto simp: filter_insert_def covers_def intro: prefix_of_trans)
next
  case False
  then show ?thesis
    unfolding covers_def set_filter_insert
    by (auto simp: covers_def intro: prefix_of_trans)
qed

lemma canonical_filter_insert:
  assumes "canonical F"
  shows "canonical (filter_insert t F)"
proof (cases "covers F t")
  case True
  then have "filter_insert t F = F" by (simp only: filter_insert_def if_True)
  with assms show ?thesis by (simp only:)
next
  case False
  from assms have sF: "sorted F" and dF: "distinct F"
    and nF: "\<And>a b. a \<in> set F \<Longrightarrow> b \<in> set F \<Longrightarrow> a \<noteq> b \<Longrightarrow> \<not> prefix_of a b"
    unfolding canonical_def by blast+
  let ?G = "filter (\<lambda>e. \<not> prefix_of t e) F"
  have eq: "filter_insert t F = insort t ?G"
    using False by (simp only: filter_insert_def if_False)
  have "sorted ?G" using sF by (rule sorted_wrt_filter)
  then have s: "sorted (insort t ?G)" by (simp only: sorted_insort)
  have tF: "t \<notin> set F"
  proof
    assume "t \<in> set F"
    then have "covers F t" unfolding covers_def using prefix_of_refl by blast
    with False show False by contradiction
  qed
  then have "t \<notin> set ?G" by simp
  moreover have "distinct ?G" using dF by (rule distinct_filter)
  ultimately have d: "distinct (insort t ?G)" by (simp only: distinct_insort simp_thms)
  have set_eq: "set (insort t ?G) = insert t {e \<in> set F. \<not> prefix_of t e}"
    by (simp add: set_insort_key)
  have n: "\<forall>a \<in> set (insort t ?G). \<forall>b \<in> set (insort t ?G). a \<noteq> b \<longrightarrow> \<not> prefix_of a b"
  proof (intro ballI impI)
    fix a b
    assume a: "a \<in> set (insort t ?G)" and b: "b \<in> set (insort t ?G)" and ab: "a \<noteq> b"
    from a have a': "a = t \<or> (a \<in> set F \<and> \<not> prefix_of t a)" unfolding set_eq by blast
    from b have b': "b = t \<or> (b \<in> set F \<and> \<not> prefix_of t b)" unfolding set_eq by blast
    show "\<not> prefix_of a b"
    proof
      assume p: "prefix_of a b"
      from a' show False
      proof
        assume "a = t"
        with b' ab p show False by blast
      next
        assume aF: "a \<in> set F \<and> \<not> prefix_of t a"
        from b' show False
        proof
          assume "b = t"
          with aF p have "covers F t" unfolding covers_def by blast
          with False show False by contradiction
        next
          assume "b \<in> set F \<and> \<not> prefix_of t b"
          with aF ab p nF show False by blast
        qed
      qed
    qed
  qed
  from s d n show ?thesis unfolding canonical_def eq by blast
qed

lemma canonical_filter_merge: "canonical F \<Longrightarrow> canonical (filter_merge F G)"
  unfolding filter_merge_def
proof (induction G arbitrary: F)
  case Nil
  then show ?case by simp
next
  case (Cons g G)
  from Cons.prems have "canonical (filter_insert g F)" by (rule canonical_filter_insert)
  then have "canonical (fold filter_insert G (filter_insert g F))" by (rule Cons.IH)
  then show ?case by simp
qed

lemma covers_filter_merge: "covers (filter_merge F G) t = (covers F t \<or> covers G t)"
  unfolding filter_merge_def
proof (induction G arbitrary: F)
  case Nil
  then show ?case by (simp add: covers_def)
next
  case (Cons g G)
  have "covers (g # G) t = (prefix_of g t \<or> covers G t)" by (simp add: covers_def)
  then show ?case by (auto simp: Cons.IH covers_filter_insert)
qed

lemma fold_merge_canonical:
  "canonical A \<Longrightarrow> canonical (fold (\<lambda>G F. filter_merge F G) Fs A)"
  by (induction Fs arbitrary: A) (simp_all add: canonical_filter_merge)

lemma fold_merge_covers:
  "covers (fold (\<lambda>G F. filter_merge F G) Fs A) t = (covers A t \<or> (\<exists>F \<in> set Fs. covers F t))"
  by (induction Fs arbitrary: A) (auto simp: covers_filter_merge)

lemma canonical_merge_filters: "canonical (merge_filters Fs)"
  unfolding merge_filters_def by (rule fold_merge_canonical) (simp add: canonical_def)

lemma covers_merge_filters: "covers (merge_filters Fs) t = (\<exists>F \<in> set Fs. covers F t)"
proof -
  have "\<not> covers [] t" by (simp add: covers_def)
  then show ?thesis by (simp add: merge_filters_def fold_merge_covers)
qed

lemma merge_events_errors:
  "merge_filters [[''zeek/events''], [''zeek/events/errors'']] = [''zeek/events'']"
  "merge_filters [[''zeek/events/errors''], [''zeek/events'']] = [''zeek/events'']"
  by (simp_all add: merge_filters_def filter_merge_def filter_insert_def covers_def
        prefix_of_def)

text \<open>
  Claim C6. \<open>peer_subscriptions()\<close> is the canonical union of the filters received from
  the peers: whatever the inbound filters are, no entry of the result is covered by
  another entry, the result is sorted without duplicates, and it covers exactly the
  topics that some peer's filter covers. With one peer's filter \<open>{"zeek/events"}\<close> and
  another's \<open>{"zeek/events/errors"}\<close>, in either order, it is exactly \<open>{"zeek/events"}\<close>.
\<close>

theorem peer_subscriptions_canonical_union:
  "(\<forall>a \<in> set (peer_subscriptions ep). \<forall>b \<in> set (peer_subscriptions ep).
       a \<noteq> b \<longrightarrow> \<not> prefix_of a b)
   \<and> sorted (peer_subscriptions ep) \<and> distinct (peer_subscriptions ep)
   \<and> covers (peer_subscriptions ep) t = (\<exists>r \<in> set (peers ep). covers (inbound_filter r) t)
   \<and> (map inbound_filter (peers ep) = [[''zeek/events''], [''zeek/events/errors'']]
        \<longrightarrow> peer_subscriptions ep = [''zeek/events''])
   \<and> (map inbound_filter (peers ep) = [[''zeek/events/errors''], [''zeek/events'']]
        \<longrightarrow> peer_subscriptions ep = [''zeek/events''])"
proof -
  have c: "canonical (peer_subscriptions ep)"
    by (simp add: peer_subscriptions_def canonical_merge_filters)
  have u: "covers (peer_subscriptions ep) t = (\<exists>r \<in> set (peers ep). covers (inbound_filter r) t)"
    by (simp add: peer_subscriptions_def covers_merge_filters)
  have e1: "map inbound_filter (peers ep) = [[''zeek/events''], [''zeek/events/errors'']]
        \<longrightarrow> peer_subscriptions ep = [''zeek/events'']"
  proof
    assume h: "map inbound_filter (peers ep) = [[''zeek/events''], [''zeek/events/errors'']]"
    show "peer_subscriptions ep = [''zeek/events'']"
      unfolding peer_subscriptions_def h by (rule merge_events_errors(1))
  qed
  have e2: "map inbound_filter (peers ep) = [[''zeek/events/errors''], [''zeek/events'']]
        \<longrightarrow> peer_subscriptions ep = [''zeek/events'']"
  proof
    assume h: "map inbound_filter (peers ep) = [[''zeek/events/errors''], [''zeek/events'']]"
    show "peer_subscriptions ep = [''zeek/events'']"
      unfolding peer_subscriptions_def h by (rule merge_events_errors(2))
  qed
  from c have c1: "\<forall>a \<in> set (peer_subscriptions ep). \<forall>b \<in> set (peer_subscriptions ep).
       a \<noteq> b \<longrightarrow> \<not> prefix_of a b"
    and c2: "sorted (peer_subscriptions ep)" and c3: "distinct (peer_subscriptions ep)"
    unfolding canonical_def by blast+
  show ?thesis
    by (intro conjI) (rule c1 c2 c3 u e1 e2)+
qed

text \<open>
  In the triangle, once \<open>V\<close> and \<open>E\<close> have subscribed, \<open>M\<close> holds the filters
  \<open>{"zeek/events"}\<close> and \<open>{"zeek/events/errors"}\<close> of its two peers, and its
  \<open>peer_subscriptions()\<close> is \<open>{"zeek/events"}\<close>.
\<close>

theorem peer_subscriptions_canonical_union_witness:
  "map_option (map inbound_filter \<circ> peers) (eps triangle_subscribed ''M'')
     = Some [[''zeek/events''], [''zeek/events/errors'']]
   \<and> map_option peer_subscriptions (eps triangle_subscribed ''M'') = Some [''zeek/events'']"
proof -
  have f: "map_option (map inbound_filter \<circ> peers) (eps triangle_subscribed ''M'')
     = Some [[''zeek/events''], [''zeek/events/errors'']]"
    by code_simp
  then obtain ep where ep: "eps triangle_subscribed ''M'' = Some ep"
    and m: "map inbound_filter (peers ep) = [[''zeek/events''], [''zeek/events/errors'']]"
    by (cases "eps triangle_subscribed ''M''") auto
  note th = peer_subscriptions_canonical_union [of ep "''zeek/events''"]
  from th have i: "map inbound_filter (peers ep) = [[''zeek/events''], [''zeek/events/errors'']]
        \<longrightarrow> peer_subscriptions ep = [''zeek/events'']"
    by (elim conjE)
  from i m have p: "peer_subscriptions ep = [''zeek/events'']" by (rule mp)
  have "map_option peer_subscriptions (eps triangle_subscribed ''M'') = Some [''zeek/events'']"
    unfolding ep option.map p by (rule refl)
  with f show ?thesis by (rule conjI)
qed

subsection \<open>What a run of the routing table delivers\<close>

lemma fold_enqueue_frame:
  "local_subscribers
     (fold (\<lambda>(F, q) e. if covers F t then enqueue q m e else e) subs ep) = local_subscribers ep
   \<and> peers (fold (\<lambda>(F, q) e. if covers F t then enqueue q m e else e) subs ep) = peers ep
   \<and> sessions (fold (\<lambda>(F, q) e. if covers F t then enqueue q m e else e) subs ep) = sessions ep
   \<and> length (queues (fold (\<lambda>(F, q) e. if covers F t then enqueue q m e else e) subs ep))
       = length (queues ep)"
  by (induction subs arbitrary: ep) (auto simp: enqueue_def)

lemma queue_contents_enqueue:
  "queue_contents (enqueue r m ep) q =
     (if q = r \<and> r < length (queues ep) then queue_contents ep q @ [m] else queue_contents ep q)"
  by (simp add: queue_contents_def enqueue_def)

lemma fold_enqueue_contents:
  "distinct (map snd subs) \<Longrightarrow>
   queue_contents (fold (\<lambda>(F, q) e. if covers F t then enqueue q m e else e) subs ep) q =
     queue_contents ep q @
       (if q < length (queues ep) \<and> (\<exists>(F, r) \<in> set subs. r = q \<and> covers F t) then [m] else [])"
proof (induction subs arbitrary: ep)
  case Nil
  then show ?case by simp
next
  case (Cons s subs)
  obtain F r where s: "s = (F, r)" by (cases s)
  from Cons.prems have d: "distinct (map snd subs)" and r: "r \<notin> snd ` set subs"
    by (simp_all add: s)
  show ?case
  proof (cases "covers F t")
    case False
    then show ?thesis using Cons.IH [OF d, of ep] by (simp add: s)
  next
    case True
    have len: "length (queues (enqueue r m ep)) = length (queues ep)"
      by (simp add: enqueue_def)
    have "queue_contents
            (fold (\<lambda>(F, q) e. if covers F t then enqueue q m e else e) subs (enqueue r m ep)) q =
          queue_contents (enqueue r m ep) q @
            (if q < length (queues ep) \<and> (\<exists>(F, r) \<in> set subs. r = q \<and> covers F t)
             then [m] else [])"
      using Cons.IH [OF d, of "enqueue r m ep"] by (simp only: len)
    then show ?thesis
      using True r by (auto simp: s queue_contents_enqueue image_iff)
  qed
qed

lemma fold_forward_frame:
  "local_subscribers (fold (\<lambda>p e. forward p m e) ts ep) = local_subscribers ep
   \<and> peers (fold (\<lambda>p e. forward p m e) ts ep) = peers ep
   \<and> queues (fold (\<lambda>p e. forward p m e) ts ep) = queues ep"
  by (induction ts arbitrary: ep) (auto simp: forward_def)

lemma fold_forward_sessions:
  "distinct ts \<Longrightarrow>
   sessions (fold (\<lambda>p e. forward p m e) ts ep) p =
     sessions ep p @ (if p \<in> set ts then [m] else [])"
proof (induction ts arbitrary: ep)
  case Nil
  then show ?case by simp
next
  case (Cons x ts)
  then have "sessions (fold (\<lambda>p e. forward p m e) ts (forward x m ep)) p =
     sessions (forward x m ep) p @ (if p \<in> set ts then [m] else [])"
    by simp
  with Cons.prems show ?case by (auto simp: forward_def)
qed

lemma forward_targets_cong:
  "peers ep' = peers ep \<Longrightarrow> forward_targets m src ep' = forward_targets m src ep"
  by (simp add: forward_targets_def)

lemma distinct_forward_targets:
  "distinct (map peer_id (peers ep)) \<Longrightarrow> distinct (forward_targets m src ep)"
  by (simp add: forward_targets_def distinct_map_filter)

lemma set_forward_targets:
  "p \<in> set (forward_targets m src ep) = forwards_to p m src ep"
  by (auto simp: forward_targets_def forwards_to_def)

lemma dispatch_frame:
  "local_subscribers (dispatch m src ep) = local_subscribers ep
   \<and> peers (dispatch m src ep) = peers ep
   \<and> length (queues (dispatch m src ep)) = length (queues ep)"
  by (simp add: dispatch_def Let_def fold_forward_frame fold_enqueue_frame)

lemma dispatch_queue_contents:
  assumes "routing_invariant ep"
  shows "queue_contents (dispatch m src ep) q =
           queue_contents ep q @ (if subscribed q (fst m) ep then [m] else [])"
proof -
  from assms have d: "distinct (map snd (local_subscribers ep))"
    and b: "\<forall>(F, r) \<in> set (local_subscribers ep). r < length (queues ep)"
    by (simp_all add: routing_invariant_def)
  from b have "(q < length (queues ep) \<and>
                (\<exists>(F, r) \<in> set (local_subscribers ep). r = q \<and> covers F (fst m)))
               = subscribed q (fst m) ep"
    by (auto simp: subscribed_def)
  then have e: "queue_contents
             (fold (\<lambda>(F, q) e. if covers F (fst m) then enqueue q m e else e)
                (local_subscribers ep) ep) q =
           queue_contents ep q @ (if subscribed q (fst m) ep then [m] else [])"
    using fold_enqueue_contents [OF d, of "fst m" m ep q] by (simp only:)
  have "queues (dispatch m src ep) =
          queues (fold (\<lambda>(F, q) e. if covers F (fst m) then enqueue q m e else e)
                    (local_subscribers ep) ep)"
    by (simp add: dispatch_def Let_def fold_forward_frame)
  then have "queue_contents (dispatch m src ep) q =
          queue_contents (fold (\<lambda>(F, q) e. if covers F (fst m) then enqueue q m e else e)
                    (local_subscribers ep) ep) q"
    by (simp only: queue_contents_def)
  with e show ?thesis by (simp only:)
qed

lemma dispatch_sessions:
  assumes "routing_invariant ep"
  shows "sessions (dispatch m src ep) p =
           sessions ep p @ (if forwards_to p m src ep then [m] else [])"
proof -
  let ?ep1 = "fold (\<lambda>(F, q) e. if covers F (fst m) then enqueue q m e else e)
                (local_subscribers ep) ep"
  have p1: "peers ?ep1 = peers ep" and s1: "sessions ?ep1 = sessions ep"
    by (simp_all add: fold_enqueue_frame)
  have t: "forward_targets m src ?ep1 = forward_targets m src ep"
    using p1 by (rule forward_targets_cong)
  from assms have "distinct (forward_targets m src ep)"
    by (simp add: routing_invariant_def distinct_forward_targets)
  then show ?thesis
    by (simp add: dispatch_def Let_def t fold_forward_sessions s1 set_forward_targets)
qed

lemma map_peer_id_set_filter:
  "map peer_id (map (\<lambda>r. if peer_id r = p then r\<lparr>inbound_filter := F\<rparr> else r) rs)
     = map peer_id rs"
  by (induction rs) auto

lemma routing_invariant_execute:
  assumes "routing_invariant ep"
  shows "routing_invariant (execute c ep)"
proof (cases c)
  case (Subscribe F)
  with assms show ?thesis
    by (fastforce simp: routing_invariant_def subscribe_def add_local_def)
next
  case (Update_local q F)
  have "snd \<circ> (\<lambda>(G, r). if r = q then (F, r) else (G, r)) = snd"
    by (auto simp: fun_eq_iff)
  with assms Update_local show ?thesis
    by (auto simp: routing_invariant_def update_local_def split: if_splits)
next
  case (Remove_local q)
  with assms show ?thesis
    by (auto simp: routing_invariant_def remove_local_def distinct_map_filter)
next
  case (Set_peer_filter p F)
  with assms show ?thesis
    by (simp add: routing_invariant_def set_peer_filter_def map_peer_id_set_filter
          del: map_map)
next
  case (Remove_peer p)
  with assms show ?thesis
    by (simp add: routing_invariant_def remove_peer_def distinct_map_filter)
next
  case (Dispatch m src)
  with assms show ?thesis
    by (simp add: routing_invariant_def dispatch_frame)
qed

lemma execute_queue_contents:
  assumes "routing_invariant ep"
  shows "queue_contents (execute c ep) q =
           queue_contents ep q @
             (case c of
                Dispatch m src \<Rightarrow> if subscribed q (fst m) ep then [m] else []
              | _ \<Rightarrow> [])"
proof (cases c)
  case (Subscribe F)
  then show ?thesis
    by (auto simp: subscribe_def add_local_def queue_contents_def nth_append)
next
  case (Dispatch m src)
  with assms show ?thesis by (simp add: dispatch_queue_contents)
qed (simp_all add: queue_contents_def update_local_def remove_local_def set_peer_filter_def
       remove_peer_def)

lemma execute_sessions:
  assumes "routing_invariant ep"
  shows "sessions (execute c ep) p =
           sessions ep p @
             (case c of
                Dispatch m src \<Rightarrow> if forwards_to p m src ep then [m] else []
              | _ \<Rightarrow> [])"
proof (cases c)
  case (Dispatch m src)
  with assms show ?thesis by (simp add: dispatch_sessions)
qed (simp_all add: subscribe_def add_local_def update_local_def remove_local_def
       set_peer_filter_def remove_peer_def)

lemma execute_all_delivers:
  "routing_invariant ep \<Longrightarrow>
   queue_contents (execute_all cmds ep) q = queue_contents ep q @ expected_messages q cmds ep
   \<and> sessions (execute_all cmds ep) p = sessions ep p @ expected_frames p cmds ep"
proof (induction cmds arbitrary: ep)
  case Nil
  then show ?case by simp
next
  case (Cons c cmds)
  from Cons.prems have inv: "routing_invariant (execute c ep)"
    by (rule routing_invariant_execute)
  note ih = Cons.IH [OF inv]
  show ?case
  proof (cases c)
    case (Dispatch m src)
    with ih Cons.prems show ?thesis
      by (simp add: dispatch_queue_contents dispatch_sessions)
  next
    case (Subscribe F)
    with ih show ?thesis
      using execute_queue_contents [OF Cons.prems, of c q] execute_sessions [OF Cons.prems, of c p]
      by simp
  next
    case (Update_local r F)
    with ih show ?thesis
      using execute_queue_contents [OF Cons.prems, of c q] execute_sessions [OF Cons.prems, of c p]
      by simp
  next
    case (Remove_local r)
    with ih show ?thesis
      using execute_queue_contents [OF Cons.prems, of c q] execute_sessions [OF Cons.prems, of c p]
      by simp
  next
    case (Set_peer_filter r F)
    with ih show ?thesis
      using execute_queue_contents [OF Cons.prems, of c q] execute_sessions [OF Cons.prems, of c p]
      by simp
  next
    case (Remove_peer r)
    with ih show ?thesis
      using execute_queue_contents [OF Cons.prems, of c q] execute_sessions [OF Cons.prems, of c p]
      by simp
  qed
qed



lemma execute_same_subscribers:
  assumes "local_subscribers ep = local_subscribers ep'"
    and "length (queues ep) = length (queues ep')"
  shows "local_subscribers (execute c ep) = local_subscribers (execute c ep')
         \<and> length (queues (execute c ep)) = length (queues (execute c ep'))"
  using assms
  by (cases c)
     (simp_all add: subscribe_def add_local_def update_local_def remove_local_def
        set_peer_filter_def remove_peer_def dispatch_frame)

lemma expected_messages_same_subscribers:
  "local_subscribers ep = local_subscribers ep' \<Longrightarrow>
   length (queues ep) = length (queues ep') \<Longrightarrow>
   expected_messages q cmds ep = expected_messages q cmds ep'"
proof (induction cmds arbitrary: ep ep')
  case Nil
  then show ?case by simp
next
  case (Cons c cmds)
  from execute_same_subscribers [OF Cons.prems, of c]
  have ih: "expected_messages q cmds (execute c ep) = expected_messages q cmds (execute c ep')"
    using Cons.IH by blast
  have sub: "\<And>t. subscribed q t ep = subscribed q t ep'"
    using Cons.prems by (simp add: subscribed_def)
  show ?case using ih sub by (cases c) simp_all
qed

lemma expected_messages_from_source:
  "subseq (expected_messages q (from_source src cmds) ep) (expected_messages q cmds ep)"
proof (induction cmds arbitrary: ep)
  case Nil
  then show ?case by (simp add: from_source_def)
next
  case (Cons c cmds)
  show ?case
  proof (cases c)
    case (Dispatch m s)
    show ?thesis
    proof (cases "s = src")
      case True
      with Dispatch Cons.IH [of "dispatch m s ep"] show ?thesis
        by (simp add: from_source_def)
    next
      case False
      have "expected_messages q (from_source src cmds) ep
              = expected_messages q (from_source src cmds) (dispatch m s ep)"
        by (rule expected_messages_same_subscribers) (simp_all add: dispatch_frame)
      with Cons.IH [of "dispatch m s ep"]
      have "subseq (expected_messages q (from_source src cmds) ep)
              (expected_messages q cmds (dispatch m s ep))"
        by simp
      with Dispatch False show ?thesis
        by (simp add: from_source_def list_emb_Cons)
    qed
  qed (use Cons.IH in \<open>simp_all add: from_source_def\<close>)
qed

lemma triangle_published_queues:
  "map_option queues (eps triangle_published ''M'') = Some []"
  "map_option queues (eps triangle_published ''V'') =
     Some [[(''zeek/events/errors'', d_string ''oops''),
            (''zeek/events/errors'', d_string ''sorry!''),
            (''zeek/events/data'', d_integer 123),
            (''zeek/events/data'', d_integer 456)]]"
  "map_option queues (eps triangle_published ''E'') =
     Some [[(''zeek/events/errors'', d_string ''oops''),
            (''zeek/events/errors'', d_string ''sorry!'')]]"
  "map_option local_subscribers (eps triangle_published ''M'') = Some []"
  "map_option local_subscribers (eps triangle_published ''V'') = Some [([''zeek/events''], 0)]"
  "map_option local_subscribers (eps triangle_published ''E'') =
     Some [([''zeek/events/errors''], 0)]"
  by code_simp+

text \<open>
  The triangle scenario and the runs of one routing table. In the triangle, after \<open>M\<close> has published the four messages in order, \<open>M\<close>
  has no queue and so has received nothing, the one subscriber of \<open>V\<close> (filter
  \<open>zeek/events\<close>) holds exactly the four messages in publish order, and the one
  subscriber of \<open>E\<close> (filter \<open>zeek/events/errors\<close>) exactly the two \<open>errors\<close> messages in
  publish order. In general, whatever commands an endpoint runs: every subscriber
  queue gains exactly the dispatched messages whose topic its filter covered at the
  time of the dispatch, in the order of dispatch; every peer session carries exactly
  the messages whose topic the peer's filter covered and that did not come from that
  peer; and the messages of any one source are among them in that source's order.
\<close>

theorem triangle_prefix_routing:
  "map_option queues (eps triangle_published ''M'') = Some []
   \<and> received triangle_published ''M'' q' = []
   \<and> map_option local_subscribers (eps triangle_published ''V'') = Some [([''zeek/events''], 0)]
   \<and> map_option queues (eps triangle_published ''V'') =
       Some [[(''zeek/events/errors'', d_string ''oops''),
              (''zeek/events/errors'', d_string ''sorry!''),
              (''zeek/events/data'', d_integer 123),
              (''zeek/events/data'', d_integer 456)]]
   \<and> map_option local_subscribers (eps triangle_published ''E'') =
       Some [([''zeek/events/errors''], 0)]
   \<and> map_option queues (eps triangle_published ''E'') =
       Some [[(''zeek/events/errors'', d_string ''oops''),
              (''zeek/events/errors'', d_string ''sorry!'')]]
   \<and> (routing_invariant ep \<longrightarrow>
        queue_contents (execute_all cmds ep) q = queue_contents ep q @ expected_messages q cmds ep
        \<and> sessions (execute_all cmds ep) p = sessions ep p @ expected_frames p cmds ep
        \<and> subseq (expected_messages q (from_source src cmds) ep)
             (expected_messages q cmds ep))"
proof -
  have "received triangle_published ''M'' q' = []"
    using triangle_published_queues(1)
    by (auto simp: received_def queue_contents_def split: option.splits)
  then show ?thesis
    using triangle_published_queues execute_all_delivers [of ep cmds q p]
      expected_messages_from_source [of q src cmds ep]
    by blast
qed

text \<open>
  A run of one endpoint: a subscriber to \<open>zeek/events\<close> that later changes its filter to
  \<open>zeek/other\<close> receives the first and the last of four messages.
\<close>

theorem triangle_prefix_routing_witness:
  "routing_invariant new_endpoint
   \<and> queue_contents
       (execute_all
          [Subscribe [''zeek/events''],
           Dispatch (''zeek/events/data'', d_integer 1) Local,
           Dispatch (''zeek/other'', d_integer 2) Local,
           Update_local 0 [''zeek/other''],
           Dispatch (''zeek/events/data'', d_integer 3) (Peer ''M''),
           Dispatch (''zeek/other'', d_integer 4) Local]
          new_endpoint) 0
     = [(''zeek/events/data'', d_integer 1), (''zeek/other'', d_integer 4)]"
proof -
  have i: "routing_invariant new_endpoint"
    by (simp add: routing_invariant_def new_endpoint_def)
  have "expected_messages 0
          [Subscribe [''zeek/events''],
           Dispatch (''zeek/events/data'', d_integer 1) Local,
           Dispatch (''zeek/other'', d_integer 2) Local,
           Update_local 0 [''zeek/other''],
           Dispatch (''zeek/events/data'', d_integer 3) (Peer ''M''),
           Dispatch (''zeek/other'', d_integer 4) Local]
          new_endpoint
        = [(''zeek/events/data'', d_integer 1), (''zeek/other'', d_integer 4)]"
    by code_simp
  moreover have "queue_contents new_endpoint 0 = []"
    by (simp add: queue_contents_def new_endpoint_def)
  ultimately show ?thesis
    using i triangle_prefix_routing
      [of 0 new_endpoint
          "[Subscribe [''zeek/events''],
           Dispatch (''zeek/events/data'', d_integer 1) Local,
           Dispatch (''zeek/other'', d_integer 2) Local,
           Update_local 0 [''zeek/other''],
           Dispatch (''zeek/events/data'', d_integer 3) (Peer ''M''),
           Dispatch (''zeek/other'', d_integer 4) Local]" 0]
    by simp
qed

subsection \<open>Unpeering\<close>

lemma bus_emit:
  "bus (emit i e net) j =
     (if j = i \<and> eps net i \<noteq> None then bus net j @ [e] else bus net j)"
  by (auto simp: bus_def emit_def modify_def split: option.splits)

lemma bus_modify_peers:
  "(\<And>ep. status_bus (f ep) = status_bus ep) \<Longrightarrow> bus (modify i f net) j = bus net j"
  by (auto simp: bus_def modify_def split: option.splits)

lemma eps_emit_None: "eps (emit i e net) j = None \<longleftrightarrow> eps net j = None"
  by (auto simp: emit_def modify_def split: option.splits)

lemma eps_modify_None: "eps (modify i f net) j = None \<longleftrightarrow> eps net j = None"
  by (auto simp: modify_def split: option.splits)

lemma peers_of_emit: "peers_of (emit i e net) j = peers_of net j"
  by (auto simp: peers_of_def emit_def modify_def split: option.splits)

lemma peers_of_modify:
  "peers_of (modify i f net) j =
     (if j = i then (case eps net i of None \<Rightarrow> [] | Some ep \<Rightarrow> peers (f ep)) else peers_of net j)"
  by (auto simp: peers_of_def modify_def split: option.splits)

lemma unpeer_unknown_address:
  assumes "\<not> (\<exists>r \<in> set (peers_of net v). has_address a r)" and "eps net v \<noteq> None"
  shows "bus (unpeer v a net) v = bus net v @ [Error peer_invalid]
         \<and> (\<forall>e. e \<noteq> v \<longrightarrow> bus (unpeer v a net) e = bus net e)
         \<and> (\<forall>e. peers_of (unpeer v a net) e = peers_of net e)"
proof -
  from assms(1) have "filter (has_address a) (peers_of net v) = []"
    by (simp add: filter_empty_conv)
  then have "unpeer v a net = emit v (Error peer_invalid) net"
    by (simp add: unpeer_def)
  with assms(2) show ?thesis by (simp add: bus_emit peers_of_emit)
qed

lemma unpeer_peered:
  assumes "filter (has_address a) (peers_of net v) = [r]"
    and "peer_state r = peered" and "peer_id r = m" and "m \<noteq> v"
    and "eps net v \<noteq> None" and "eps net m \<noteq> None"
  shows "bus (unpeer v a net) m = bus net m @ [Status peer_lost]
         \<and> bus (unpeer v a net) v = bus net v @ [Status peer_removed]
         \<and> (\<forall>e. e \<noteq> v \<and> e \<noteq> m \<longrightarrow> bus (unpeer v a net) e = bus net e)
         \<and> \<not> (\<exists>r \<in> set (peers_of (unpeer v a net) v). has_address a r)
         \<and> eps (unpeer v a net) v \<noteq> None"
proof -
  have u: "unpeer v a net =
      emit m (Status peer_lost)
        (modify m (remove_peer v)
           (emit v (Status peer_removed) (modify v (drop_session a) net)))"
    using assms(1,2,3) by (simp add: unpeer_def Let_def)
  have d: "\<And>ep. status_bus (drop_session a ep) = status_bus ep"
    by (simp add: drop_session_def)
  have r: "\<And>ep. status_bus (remove_peer v ep) = status_bus ep"
    by (simp add: remove_peer_def)
  from assms(4) have vm: "v \<noteq> m" by blast
  have "peers_of (unpeer v a net) v = peers_of (modify v (drop_session a) net) v"
    unfolding u using vm by (simp add: peers_of_emit peers_of_modify)
  also have "\<dots> = filter (\<lambda>r. \<not> has_address a r) (peers_of net v)"
    using assms(5)
    by (simp only: peers_of_modify if_True) (auto simp: peers_of_def drop_session_def)
  finally have p: "peers_of (unpeer v a net) v = filter (\<lambda>r. \<not> has_address a r) (peers_of net v)" .
  show ?thesis
    unfolding p unfolding u
    using assms(4,5,6)
    by (simp add: bus_emit bus_modify_peers d r eps_emit_None eps_modify_None)
qed

text \<open>
  Claim C2. When \<open>V\<close> unpeers from the address \<open>a\<close> of an endpoint \<open>M\<close> it is peered
  with, \<open>M\<close>'s status bus gets \<open>peer_lost\<close>, \<open>V\<close>'s gets \<open>peer_removed\<close>, and no third
  endpoint sees an event. A second \<open>unpeer\<close> of the same address yields only the error
  \<open>peer_invalid\<close> on \<open>V\<close> and nothing elsewhere. An \<open>unpeer\<close> of an address that \<open>V\<close> has no
  session for yields \<open>peer_invalid\<close> on \<open>V\<close>, nothing elsewhere, and leaves every
  endpoint's peer records as they were, so no record for that address.
\<close>

theorem unpeer_events:
  "(filter (has_address a) (peers_of net v) = [r] \<and> peer_state r = peered
      \<and> peer_id r = m \<and> m \<noteq> v \<and> eps net v \<noteq> None \<and> eps net m \<noteq> None \<longrightarrow>
      bus (unpeer v a net) m = bus net m @ [Status peer_lost]
      \<and> bus (unpeer v a net) v = bus net v @ [Status peer_removed]
      \<and> (\<forall>e. e \<noteq> v \<and> e \<noteq> m \<longrightarrow> bus (unpeer v a net) e = bus net e)
      \<and> bus (unpeer v a (unpeer v a net)) v = bus (unpeer v a net) v @ [Error peer_invalid]
      \<and> (\<forall>e. e \<noteq> v \<longrightarrow> bus (unpeer v a (unpeer v a net)) e = bus (unpeer v a net) e))
   \<and> (\<not> (\<exists>r \<in> set (peers_of net v). has_address b r) \<and> eps net v \<noteq> None \<longrightarrow>
      bus (unpeer v b net) v = bus net v @ [Error peer_invalid]
      \<and> (\<forall>e. e \<noteq> v \<longrightarrow> bus (unpeer v b net) e = bus net e)
      \<and> (\<forall>e. peers_of (unpeer v b net) e = peers_of net e)
      \<and> \<not> (\<exists>r \<in> set (peers_of (unpeer v b net) v). has_address b r))"
proof -
  have first: "filter (has_address a) (peers_of net v) = [r] \<and> peer_state r = peered
      \<and> peer_id r = m \<and> m \<noteq> v \<and> eps net v \<noteq> None \<and> eps net m \<noteq> None \<longrightarrow>
      bus (unpeer v a net) m = bus net m @ [Status peer_lost]
      \<and> bus (unpeer v a net) v = bus net v @ [Status peer_removed]
      \<and> (\<forall>e. e \<noteq> v \<and> e \<noteq> m \<longrightarrow> bus (unpeer v a net) e = bus net e)
      \<and> bus (unpeer v a (unpeer v a net)) v = bus (unpeer v a net) v @ [Error peer_invalid]
      \<and> (\<forall>e. e \<noteq> v \<longrightarrow> bus (unpeer v a (unpeer v a net)) e = bus (unpeer v a net) e)"
  proof
    assume h: "filter (has_address a) (peers_of net v) = [r] \<and> peer_state r = peered
      \<and> peer_id r = m \<and> m \<noteq> v \<and> eps net v \<noteq> None \<and> eps net m \<noteq> None"
    then have 1: "bus (unpeer v a net) m = bus net m @ [Status peer_lost]
         \<and> bus (unpeer v a net) v = bus net v @ [Status peer_removed]
         \<and> (\<forall>e. e \<noteq> v \<and> e \<noteq> m \<longrightarrow> bus (unpeer v a net) e = bus net e)
         \<and> \<not> (\<exists>r \<in> set (peers_of (unpeer v a net) v). has_address a r)
         \<and> eps (unpeer v a net) v \<noteq> None"
      using unpeer_peered [of a net v r m] by blast
    then have 2: "bus (unpeer v a (unpeer v a net)) v = bus (unpeer v a net) v @ [Error peer_invalid]
         \<and> (\<forall>e. e \<noteq> v \<longrightarrow> bus (unpeer v a (unpeer v a net)) e = bus (unpeer v a net) e)"
      using unpeer_unknown_address [of "unpeer v a net" v a] by blast
    from 1 2 show "bus (unpeer v a net) m = bus net m @ [Status peer_lost]
      \<and> bus (unpeer v a net) v = bus net v @ [Status peer_removed]
      \<and> (\<forall>e. e \<noteq> v \<and> e \<noteq> m \<longrightarrow> bus (unpeer v a net) e = bus net e)
      \<and> bus (unpeer v a (unpeer v a net)) v = bus (unpeer v a net) v @ [Error peer_invalid]
      \<and> (\<forall>e. e \<noteq> v \<longrightarrow> bus (unpeer v a (unpeer v a net)) e = bus (unpeer v a net) e)"
      by blast
  qed
  have second: "\<not> (\<exists>r \<in> set (peers_of net v). has_address b r) \<and> eps net v \<noteq> None \<longrightarrow>
      bus (unpeer v b net) v = bus net v @ [Error peer_invalid]
      \<and> (\<forall>e. e \<noteq> v \<longrightarrow> bus (unpeer v b net) e = bus net e)
      \<and> (\<forall>e. peers_of (unpeer v b net) e = peers_of net e)
      \<and> \<not> (\<exists>r \<in> set (peers_of (unpeer v b net) v). has_address b r)"
  proof
    assume h: "\<not> (\<exists>r \<in> set (peers_of net v). has_address b r) \<and> eps net v \<noteq> None"
    then have "bus (unpeer v b net) v = bus net v @ [Error peer_invalid]
         \<and> (\<forall>e. e \<noteq> v \<longrightarrow> bus (unpeer v b net) e = bus net e)
         \<and> (\<forall>e. peers_of (unpeer v b net) e = peers_of net e)"
      using unpeer_unknown_address [of net v b] by blast
    with h show "bus (unpeer v b net) v = bus net v @ [Error peer_invalid]
      \<and> (\<forall>e. e \<noteq> v \<longrightarrow> bus (unpeer v b net) e = bus net e)
      \<and> (\<forall>e. peers_of (unpeer v b net) e = peers_of net e)
      \<and> \<not> (\<exists>r \<in> set (peers_of (unpeer v b net) v). has_address b r)"
      by simp
  qed
  from first second show ?thesis by (rule conjI)
qed

text \<open>
  The triangle: \<open>V\<close> unpeers from \<open>M\<close>, then again, then from \<open>("sun", 123)\<close>.
\<close>

theorem unpeer_events_witness:
  "filter (has_address (''M'', 4040)) (peers_of triangle ''V'')
     = [\<lparr>peer_id = ''M'', peer_address = Some (''M'', 4040), inbound_filter = [],
         peer_state = peered, retry_interval = 0, next_attempt = 0\<rparr>]
   \<and> bus triangle ''M'' = [Status peer_added, Status peer_added]
   \<and> bus (unpeer ''V'' (''M'', 4040) triangle) ''M''
       = [Status peer_added, Status peer_added, Status peer_lost]
   \<and> bus (unpeer ''V'' (''M'', 4040) triangle) ''V'' = [Status peer_added, Status peer_removed]
   \<and> bus (unpeer ''V'' (''M'', 4040) triangle) ''E'' = [Status peer_added]
   \<and> bus (unpeer ''V'' (''M'', 4040) (unpeer ''V'' (''M'', 4040) triangle)) ''V''
       = [Status peer_added, Status peer_removed, Error peer_invalid]
   \<and> bus (unpeer ''V'' (''M'', 4040) (unpeer ''V'' (''M'', 4040) triangle)) ''M''
       = [Status peer_added, Status peer_added, Status peer_lost]
   \<and> \<not> (\<exists>r \<in> set (peers_of triangle ''V''). has_address (''sun'', 123) r)
   \<and> bus (unpeer ''V'' (''sun'', 123) triangle) ''V'' = [Status peer_added, Error peer_invalid]
   \<and> peers_of (unpeer ''V'' (''sun'', 123) triangle) ''V'' = peers_of triangle ''V''"
proof -
  let ?r = "\<lparr>peer_id = ''M'', peer_address = Some (''M'', 4040), inbound_filter = [],
         peer_state = peered, retry_interval = 0, next_attempt = 0\<rparr>"
  have f: "filter (has_address (''M'', 4040)) (peers_of triangle ''V'') = [?r]"
    by code_simp
  have e: "eps triangle ''V'' \<noteq> None" "eps triangle ''M'' \<noteq> None"
    by code_simp+
  have b: "bus triangle ''M'' = [Status peer_added, Status peer_added]"
    "bus triangle ''V'' = [Status peer_added]" "bus triangle ''E'' = [Status peer_added]"
    by code_simp+
  have s: "\<not> (\<exists>r \<in> set (peers_of triangle ''V''). has_address (''sun'', 123) r)"
    by code_simp
  have ne: "''M'' \<noteq> ''V''" "''E'' \<noteq> ''V'' \<and> ''E'' \<noteq> ''M''" by simp_all
  show ?thesis
    using f e b s ne
      unpeer_events [of "(''M'', 4040)" triangle "''V''" ?r "''M''" "(''sun'', 123)"]
    by simp
qed

subsection \<open>Retrying a connection\<close>

lemma due_addresses_quiescent:
  "\<forall>x \<in> set rs. peer_state x \<noteq> reconnecting \<Longrightarrow> due_addresses now rs = []"
  by (induction rs) (auto simp: due_addresses_def split: option.splits)

lemma retry_due_quiescent: "quiescent net \<Longrightarrow> retry_due i net = net"
  by (simp add: retry_due_def quiescent_def due_addresses_quiescent)

lemma fold_retry_due_quiescent: "quiescent net \<Longrightarrow> fold retry_due xs net = net"
  by (induction xs) (simp_all add: retry_due_quiescent)

lemma quiescent_clock: "quiescent (net\<lparr>clock := c\<rparr>) = quiescent net"
  by (simp add: quiescent_def peers_of_def)

lemma tick_quiescent: "quiescent net \<Longrightarrow> tick net = net\<lparr>clock := clock net + 1\<rparr>"
  by (simp add: tick_def fold_retry_due_quiescent quiescent_clock)

lemma ticks_quiescent:
  "quiescent net \<Longrightarrow> quiescent (ticks j net) \<and> (\<forall>i. bus (ticks j net) i = bus net i)"
proof (induction j arbitrary: net)
  case 0
  then show ?case by simp
next
  case (Suc j)
  from Suc.prems have t: "tick net = net\<lparr>clock := clock net + 1\<rparr>" by (rule tick_quiescent)
  from Suc.prems have "quiescent (net\<lparr>clock := clock net + 1\<rparr>)" by (simp add: quiescent_clock)
  from Suc.IH [OF this] show ?case by (simp add: t bus_def)
qed

lemma peers_of_waiting:
  assumes "eps net v = Some ev" and "unpeered net"
  shows "peers_of (waiting net v a r n t c) i = (if i = v then [retry_session a r t] else [])"
  using assms
  by (auto simp: waiting_def peers_of_def modify_def unpeered_def split: option.splits)

lemma eps_waiting:
  assumes "eps net v = Some ev"
  shows "eps (waiting net v a r n t c) =
           (eps net)(v := Some (ev\<lparr>peers := [retry_session a r t],
               status_bus := status_bus ev @ replicate n (Error peer_unavailable)\<rparr>))"
    and "clock (waiting net v a r n t c) = c"
    and "ids (waiting net v a r n t c) = ids net"
  using assms by (simp_all add: waiting_def modify_def)

lemma retry_due_waiting_other:
  assumes "eps net v = Some ev" and "unpeered net" and "i \<noteq> v"
  shows "retry_due i (waiting net v a r n t c) = waiting net v a r n t c"
  using assms by (simp add: retry_due_def peers_of_waiting due_addresses_def)

lemma retry_due_waiting_asleep:
  assumes "eps net v = Some ev" and "unpeered net" and "c < t"
  shows "retry_due i (waiting net v a r n t c) = waiting net v a r n t c"
  using assms
  by (simp add: retry_due_def peers_of_waiting [OF assms(1,2)] due_addresses_def
        retry_session_def eps_waiting)

lemma fold_retry_due_waiting_asleep:
  assumes "eps net v = Some ev" and "unpeered net" and "c < t"
  shows "fold retry_due xs (waiting net v a r n t c) = waiting net v a r n t c"
  by (induction xs) (simp_all add: retry_due_waiting_asleep [OF assms])

lemma acceptor_at_waiting:
  assumes "eps net v = Some ev" and "fst a \<noteq> v"
  shows "acceptor_at (waiting net v a r n t c) a = acceptor_at net a"
  using assms by (simp add: acceptor_at_def eps_waiting)

lemma attempt_waiting_fails:
  assumes "eps net v = Some ev" and "unpeered net" and "fst a \<noteq> v"
    and "acceptor_at net a = None" and "0 < r"
  shows "attempt v a (waiting net v a r n t c) = waiting net v a r (Suc n) (c + r) c"
proof -
  let ?W = "waiting net v a r n t c"
  have e: "eps ?W v = Some (ev\<lparr>peers := [retry_session a r t],
               status_bus := status_bus ev @ replicate n (Error peer_unavailable)\<rparr>)"
    using assms(1) by (simp add: eps_waiting)
  have acc: "acceptor_at ?W a = None"
    using assms(1,3,4) by (simp add: acceptor_at_waiting)
  have "attempt v a ?W = connect_failed v a (retry_session a r t) ?W"
    by (simp add: attempt_def e acc has_address_def retry_session_def)
  also have "\<dots> = waiting net v a r (Suc n) (c + r) c"
    using assms(1,5)
    by (simp add: connect_failed_def emit_def modify_def waiting_def schedule_retry_def
          has_address_def retry_session_def replicate_append_same)
  finally show ?thesis .
qed

lemma retry_due_waiting_fails:
  assumes "eps net v = Some ev" and "unpeered net" and "fst a \<noteq> v"
    and "acceptor_at net a = None" and "0 < r" and "t \<le> c"
  shows "retry_due v (waiting net v a r n t c) = waiting net v a r (Suc n) (c + r) c"
  using assms(6)
  by (simp add: retry_due_def peers_of_waiting [OF assms(1,2)] due_addresses_def
        retry_session_def eps_waiting [OF assms(1)]
        attempt_waiting_fails [OF assms(1-5), unfolded retry_session_def])

lemma fold_retry_due_waiting_fails:
  assumes "eps net v = Some ev" and "unpeered net" and "fst a \<noteq> v"
    and "acceptor_at net a = None" and "0 < r" and "t \<le> c"
  shows "fold retry_due xs (waiting net v a r n t c) =
           (if v \<in> set xs then waiting net v a r (Suc n) (c + r) c
            else waiting net v a r n t c)"
proof (induction xs)
  case Nil
  then show ?case by simp
next
  case (Cons x xs)
  show ?case
  proof (cases "x = v")
    case True
    have "c < c + r" using assms(5) by simp
    then show ?thesis
      using True
      by (simp add: retry_due_waiting_fails [OF assms]
            fold_retry_due_waiting_asleep [OF assms(1,2)])
  next
    case False
    then show ?thesis
      using Cons.IH by (simp add: retry_due_waiting_other [OF assms(1,2)])
  qed
qed

lemma waiting_clock:
  "(waiting net v a r n t c)\<lparr>clock := c'\<rparr> = waiting net v a r n t c'"
  by (simp add: waiting_def)

lemma tick_waiting_fails:
  assumes "eps net v = Some ev" and "unpeered net" and "fst a \<noteq> v"
    and "acceptor_at net a = None" and "0 < r" and "v \<in> set (ids net)"
  shows "tick (waiting net v a r n t c) =
           (if t \<le> c + 1 then waiting net v a r (Suc n) (c + 1 + r) (c + 1)
            else waiting net v a r n t (c + 1))"
proof (cases "t \<le> c + 1")
  case True
  then show ?thesis
    using assms(6)
    by (simp add: tick_def eps_waiting [OF assms(1)] waiting_clock
          fold_retry_due_waiting_fails [OF assms(1-5)])
next
  case False
  then have "c + 1 < t" by simp
  then show ?thesis
    using False
    by (simp add: tick_def eps_waiting [OF assms(1)] waiting_clock
          fold_retry_due_waiting_asleep [OF assms(1,2)])
qed

lemma ticks_waiting_fails:
  assumes "eps net v = Some ev" and "unpeered net" and "fst a \<noteq> v"
    and "acceptor_at net a = None" and "0 < r" and "v \<in> set (ids net)"
  shows "c < t \<Longrightarrow> t \<le> c + r \<Longrightarrow>
         \<exists>n' t'. ticks k (waiting net v a r n t c) = waiting net v a r n' t' (c + k)
                \<and> n \<le> n' \<and> c + k < t' \<and> t' \<le> c + k + r"
proof (induction k arbitrary: n t c)
  case 0
  then show ?case by auto
next
  case (Suc k)
  show ?case
  proof (cases "t \<le> c + 1")
    case True
    have "\<exists>n' t'. ticks k (waiting net v a r (Suc n) (c + 1 + r) (c + 1))
                     = waiting net v a r n' t' (c + 1 + k)
                \<and> Suc n \<le> n' \<and> c + 1 + k < t' \<and> t' \<le> c + 1 + k + r"
      using assms(5) by (intro Suc.IH) simp_all
    then obtain n' t' where
      "ticks k (waiting net v a r (Suc n) (c + 1 + r) (c + 1)) = waiting net v a r n' t' (c + 1 + k)"
      "Suc n \<le> n'" "c + 1 + k < t'" "t' \<le> c + 1 + k + r"
      by blast
    then have "ticks (Suc k) (waiting net v a r n t c) = waiting net v a r n' t' (c + Suc k)
                \<and> n \<le> n' \<and> c + Suc k < t' \<and> t' \<le> c + Suc k + r"
      using True by (simp add: tick_waiting_fails [OF assms])
    then show ?thesis by blast
  next
    case False
    have "\<exists>n' t'. ticks k (waiting net v a r n t (c + 1)) = waiting net v a r n' t' (c + 1 + k)
                \<and> n \<le> n' \<and> c + 1 + k < t' \<and> t' \<le> c + 1 + k + r"
      using False Suc.prems by (intro Suc.IH) simp_all
    then obtain n' t' where
      "ticks k (waiting net v a r n t (c + 1)) = waiting net v a r n' t' (c + 1 + k)"
      "n \<le> n'" "c + 1 + k < t'" "t' \<le> c + 1 + k + r"
      by blast
    then have "ticks (Suc k) (waiting net v a r n t c) = waiting net v a r n' t' (c + Suc k)
                \<and> n \<le> n' \<and> c + Suc k < t' \<and> t' \<le> c + Suc k + r"
      using False by (simp add: tick_waiting_fails [OF assms])
    then show ?thesis by blast
  qed
qed

lemma eps_emit_other: "j \<noteq> i \<Longrightarrow> eps (emit i e net) j = eps net j"
  by (auto simp: emit_def modify_def split: option.splits)

lemma eps_modify_other: "j \<noteq> i \<Longrightarrow> eps (modify i f net) j = eps net j"
  by (auto simp: modify_def split: option.splits)

lemma peer_waiting:
  assumes "eps net v = Some ev" and "unpeered net" and "fst a \<noteq> v"
    and "acceptor_at net a = None" and "0 < r"
  shows "peer v a r net = waiting net v a r 1 (clock net + r) (clock net)"
proof -
  from assms(1,2) have p: "peers ev = []" by (simp add: unpeered_def)
  then have none: "\<not> (\<exists>x \<in> set (peers_of net v). has_address a x)"
    using assms(1) by (simp add: peers_of_def)
  let ?s = "\<lparr>peer_id = fst a, peer_address = Some a, inbound_filter = [],
            peer_state = connecting, retry_interval = r, next_attempt = clock net\<rparr>"
  let ?N = "modify v (new_session a r (clock net)) net"
  have e: "eps ?N v = Some (ev\<lparr>peers := [?s]\<rparr>)"
    using assms(1) p by (simp add: modify_def new_session_def)
  have acc: "acceptor_at ?N a = None"
    using assms(1,3,4) by (simp add: acceptor_at_def modify_def)
  have "peer v a r net = attempt v a ?N"
    using none by (simp add: peer_def)
  also have "\<dots> = connect_failed v a ?s ?N"
    by (simp add: attempt_def e acc has_address_def)
  also have "\<dots> = waiting net v a r 1 (clock net + r) (clock net)"
    using assms(1,5) p
    by (simp add: connect_failed_def emit_def modify_def waiting_def schedule_retry_def
          has_address_def retry_session_def new_session_def)
  finally show ?thesis .
qed

lemma listen_waiting:
  assumes "m \<noteq> v"
  shows "listen m port (waiting net v a r n t c) = waiting (listen m port net) v a r n t c"
  using assms
  by (auto simp: listen_def waiting_def modify_def fun_upd_twist split: option.splits)

lemma listen_facts:
  assumes "eps net v = Some ev" and "eps net m = Some em" and "m \<noteq> v" and "unpeered net"
  shows "eps (listen m port net) v = Some ev"
    and "unpeered (listen m port net)"
    and "acceptor_at (listen m port net) (m, port) = Some (em\<lparr>listening := Some port\<rparr>)"
    and "ids (listen m port net) = ids net"
    and "bus (listen m port net) i = bus net i"
  using assms
  by (auto simp: listen_def modify_def unpeered_def acceptor_at_def bus_def
        split: option.splits if_splits)

lemma attempt_waiting_succeeds:
  assumes "eps net v = Some ev" and "unpeered net" and "fst a \<noteq> v"
    and "acceptor_at net a = Some em" and "protocol_version em = protocol_version ev"
  shows "quiescent (attempt v a (waiting net v a r n t c))
         \<and> bus (attempt v a (waiting net v a r n t c)) v
             = bus net v @ replicate n (Error peer_unavailable) @ [Status peer_added]
         \<and> bus (attempt v a (waiting net v a r n t c)) (fst a)
             = bus net (fst a) @ [Status peer_added]"
proof -
  let ?W = "waiting net v a r n t c"
  let ?X = "ev\<lparr>peers := [retry_session a r t],
               status_bus := status_bus ev @ replicate n (Error peer_unavailable)\<rparr>"
  have e: "eps ?W v = Some ?X"
    using assms(1) by (simp add: eps_waiting)
  have acc: "acceptor_at ?W a = Some em"
    using assms(1,3,4) by (simp add: acceptor_at_waiting)
  from assms(4) obtain em0 where m0: "eps net (fst a) = Some em0"
    by (auto simp: acceptor_at_def split: option.splits)
  with assms(2) have pm: "peers em0 = []" by (simp add: unpeered_def)
  have em: "eps ?W (fst a) = Some em0"
    using assms(1,3) m0 by (simp add: eps_waiting)
  let ?F = "aggregate_local_filter em"
  let ?G = "aggregate_local_filter ?X"
  let ?N1 = "modify v (session_peered a ?F) ?W"
  let ?N2 = "emit v (Status peer_added) ?N1"
  let ?N3 = "modify (fst a) (accept_peer v ?G) ?N2"
  let ?N4 = "emit (fst a) (Status peer_added) ?N3"
  from assms(4) m0 have "em = em0"
    by (auto simp: acceptor_at_def split: if_splits)
  with pm have np: "\<not> already_peered (fst a) ?X" "\<not> already_peered v em"
    by (simp_all add: already_peered_def retry_session_def)
  have att: "attempt v a ?W = ?N4"
    using assms(3,5) np
    by (simp add: attempt_def e acc has_address_def retry_session_def handshake_def)
  have sp: "\<And>ep. status_bus (session_peered a ?F ep) = status_bus ep"
    by (simp add: session_peered_def)
  have ap: "\<And>ep. status_bus (accept_peer v ?G ep) = status_bus ep"
    by (simp add: accept_peer_def)
  have bW: "bus ?W v = bus net v @ replicate n (Error peer_unavailable)"
    "bus ?W (fst a) = bus net (fst a)"
    using assms(1,3) m0 by (simp_all add: bus_def eps_waiting)
  have b: "bus ?N4 v = bus net v @ replicate n (Error peer_unavailable) @ [Status peer_added]"
    "bus ?N4 (fst a) = bus net (fst a) @ [Status peer_added]"
    using assms(3) e em bW
    by (simp_all add: bus_emit bus_modify_peers sp ap eps_emit_None eps_modify_None)
  have pW: "\<And>i. peers_of ?W i = (if i = v then [retry_session a r t] else [])"
    using assms(1,2) by (rule peers_of_waiting)
  have e2: "eps ?N2 (fst a) = Some em0"
    using assms(3) em by (simp add: eps_emit_other eps_modify_other)
  have q: "peers_of ?N4 i =
             (if i = fst a then peers (accept_peer v ?G em0)
              else if i = v then peers (session_peered a ?F ?X)
              else [])" for i
    using assms(3)
    by (simp add: peers_of_emit peers_of_modify e2 e pW)
  have "\<forall>x \<in> set (peers_of ?N4 i). peer_state x \<noteq> reconnecting" for i
    unfolding q using pm
    by (simp add: session_peered_def accept_peer_def has_address_def retry_session_def)
  then have "quiescent ?N4" by (simp add: quiescent_def)
  with b show ?thesis unfolding att by blast
qed

lemma retry_due_waiting_due:
  assumes "eps net v = Some ev" and "unpeered net" and "t \<le> c"
  shows "retry_due v (waiting net v a r n t c) = attempt v a (waiting net v a r n t c)"
  using assms(3)
  by (simp add: retry_due_def peers_of_waiting [OF assms(1,2)] due_addresses_def
        retry_session_def eps_waiting [OF assms(1)])

lemma fold_retry_due_waiting_succeeds:
  assumes "eps net v = Some ev" and "unpeered net" and "fst a \<noteq> v"
    and "acceptor_at net a = Some em" and "protocol_version em = protocol_version ev"
    and "t \<le> c"
  shows "fold retry_due xs (waiting net v a r n t c) =
           (if v \<in> set xs then attempt v a (waiting net v a r n t c)
            else waiting net v a r n t c)"
proof (induction xs)
  case Nil
  then show ?case by simp
next
  case (Cons x xs)
  show ?case
  proof (cases "x = v")
    case True
    have "quiescent (attempt v a (waiting net v a r n t c))"
      using attempt_waiting_succeeds [OF assms(1-5)] by blast
    then show ?thesis
      using True
      by (simp add: retry_due_waiting_due [OF assms(1,2,6)] fold_retry_due_quiescent)
  next
    case False
    then show ?thesis
      using Cons.IH by (simp add: retry_due_waiting_other [OF assms(1,2)])
  qed
qed

lemma tick_waiting_succeeds:
  assumes "eps net v = Some ev" and "unpeered net" and "fst a \<noteq> v"
    and "acceptor_at net a = Some em" and "protocol_version em = protocol_version ev"
    and "v \<in> set (ids net)"
  shows "tick (waiting net v a r n t c) =
           (if t \<le> c + 1 then attempt v a (waiting net v a r n t (c + 1))
            else waiting net v a r n t (c + 1))"
proof (cases "t \<le> c + 1")
  case True
  then show ?thesis
    using assms(6)
    by (simp add: tick_def eps_waiting [OF assms(1)] waiting_clock
          fold_retry_due_waiting_succeeds [OF assms(1-5)])
next
  case False
  then have "c + 1 < t" by simp
  then show ?thesis
    using False
    by (simp add: tick_def eps_waiting [OF assms(1)] waiting_clock
          fold_retry_due_waiting_asleep [OF assms(1,2)])
qed

lemma ticks_waiting_succeeds:
  assumes "eps net v = Some ev" and "unpeered net" and "fst a \<noteq> v"
    and "acceptor_at net a = Some em" and "protocol_version em = protocol_version ev"
    and "v \<in> set (ids net)"
  shows "c < t \<Longrightarrow> t \<le> c + j \<Longrightarrow>
         bus (ticks j (waiting net v a r n t c)) v
           = bus net v @ replicate n (Error peer_unavailable) @ [Status peer_added]
         \<and> bus (ticks j (waiting net v a r n t c)) (fst a)
           = bus net (fst a) @ [Status peer_added]"
proof (induction j arbitrary: c)
  case 0
  then show ?case by simp
next
  case (Suc j)
  show ?case
  proof (cases "t \<le> c + 1")
    case True
    let ?N = "attempt v a (waiting net v a r n t (c + 1))"
    have s: "quiescent ?N
         \<and> bus ?N v = bus net v @ replicate n (Error peer_unavailable) @ [Status peer_added]
         \<and> bus ?N (fst a) = bus net (fst a) @ [Status peer_added]"
      by (rule attempt_waiting_succeeds [OF assms(1-5)])
    then have "\<forall>i. bus (ticks j ?N) i = bus ?N i"
      using ticks_quiescent [of ?N j] by blast
    with s True show ?thesis
      by (simp add: tick_waiting_succeeds [OF assms])
  next
    case False
    with Suc.prems have "c + 1 < t" "t \<le> c + 1 + j" by simp_all
    from Suc.IH [OF this] False show ?thesis
      by (simp add: tick_waiting_succeeds [OF assms])
  qed
qed

text \<open>
  Claim C3. In a mesh where nothing is peered yet, let \<open>V\<close> initiate peering to the
  address \<open>(M, port)\<close> with a retry interval \<open>r > 0\<close> while \<open>M\<close> does not listen on that
  port; let \<open>k\<close> ticks pass, let \<open>M\<close> start listening, and let at least \<open>r\<close> more
  ticks pass. Then for some \<open>n \<ge> 1\<close>: when \<open>M\<close> starts listening, \<open>V\<close>'s status bus has
  gained \<open>n\<close> times \<open>peer_unavailable\<close>, one for each failed attempt, and nothing else; at
  the end it has gained those followed by \<open>peer_added\<close>, and \<open>M\<close>'s status bus has
  gained \<open>peer_added\<close>.
\<close>

theorem connection_retry:
  assumes "eps net v = Some ev" and "eps net m = Some em" and "m \<noteq> v"
    and "unpeered net" and "v \<in> set (ids net)"
    and "0 < r" and "listening em \<noteq> Some port"
    and "protocol_version em = protocol_version ev" and "r \<le> j"
  shows "\<exists>n\<ge>1.
           bus (ticks k (peer v (m, port) r net)) v
             = bus net v @ replicate n (Error peer_unavailable)
         \<and> bus (ticks j (listen m port (ticks k (peer v (m, port) r net)))) v
             = bus net v @ replicate n (Error peer_unavailable) @ [Status peer_added]
         \<and> bus (ticks j (listen m port (ticks k (peer v (m, port) r net)))) m
             = bus net m @ [Status peer_added]"
proof -
  let ?a = "(m, port)"
  have fa: "fst ?a \<noteq> v" using assms(3) by simp
  have acc: "acceptor_at net ?a = None"
    using assms(2,7) by (simp add: acceptor_at_def)
  have p: "peer v ?a r net = waiting net v ?a r 1 (clock net + r) (clock net)"
    by (rule peer_waiting [OF assms(1,4) fa acc assms(6)])
  have "\<exists>n' t'. ticks k (waiting net v ?a r 1 (clock net + r) (clock net))
                   = waiting net v ?a r n' t' (clock net + k)
                \<and> 1 \<le> n' \<and> clock net + k < t' \<and> t' \<le> clock net + k + r"
    using assms(6)
    by (intro ticks_waiting_fails [OF assms(1,4) fa acc assms(6,5)]) simp_all
  then obtain n t where
    w: "ticks k (peer v ?a r net) = waiting net v ?a r n t (clock net + k)"
    and n: "1 \<le> n" and t: "clock net + k < t" "t \<le> clock net + k + r"
    unfolding p by blast
  let ?L = "listen m port net"
  note lf = listen_facts [OF assms(1,2,3,4), of port]
  have l: "listen m port (ticks k (peer v ?a r net)) = waiting ?L v ?a r n t (clock net + k)"
    unfolding w by (rule listen_waiting [OF assms(3)])
  have pv: "protocol_version (em\<lparr>listening := Some port\<rparr>) = protocol_version ev"
    using assms(8) by simp
  have idL: "v \<in> set (ids ?L)" using assms(5) by (simp add: lf(4))
  have tj: "t \<le> clock net + k + j" using t(2) assms(9) by simp
  have s: "bus (ticks j (waiting ?L v ?a r n t (clock net + k))) v
           = bus ?L v @ replicate n (Error peer_unavailable) @ [Status peer_added]
         \<and> bus (ticks j (waiting ?L v ?a r n t (clock net + k))) (fst ?a)
           = bus ?L (fst ?a) @ [Status peer_added]"
    by (rule ticks_waiting_succeeds [OF lf(1) lf(2) fa lf(3) pv idL t(1) tj])
  have b: "bus (ticks k (peer v ?a r net)) v = bus net v @ replicate n (Error peer_unavailable)"
    unfolding w using assms(1) by (simp add: bus_def eps_waiting)
  from s b n show ?thesis
    unfolding l by (intro exI [of _ n]) (simp add: lf(5))
qed

text \<open>
  The test's timing: \<open>V\<close> peers with a retry interval of one second, \<open>M\<close> starts
  listening after two.
\<close>

theorem connection_retry_witness:
  "eps (make_network [''M'', ''V'', ''E'']) ''V'' = Some new_endpoint
   \<and> eps (make_network [''M'', ''V'', ''E'']) ''M'' = Some new_endpoint
   \<and> unpeered (make_network [''M'', ''V'', ''E''])
   \<and> listening new_endpoint \<noteq> Some 4040
   \<and> (\<exists>n\<ge>1. bus (ticks 1 (listen ''M'' 4040 (ticks 2
                  (peer ''V'' (''M'', 4040) 1 (make_network [''M'', ''V'', ''E'']))))) ''V''
              = replicate n (Error peer_unavailable) @ [Status peer_added])
   \<and> bus (ticks 1 (listen ''M'' 4040 (ticks 2
            (peer ''V'' (''M'', 4040) 1 (make_network [''M'', ''V'', ''E'']))))) ''V''
       = [Error peer_unavailable, Error peer_unavailable, Error peer_unavailable,
          Status peer_added]
   \<and> bus (ticks 1 (listen ''M'' 4040 (ticks 2
            (peer ''V'' (''M'', 4040) 1 (make_network [''M'', ''V'', ''E'']))))) ''M''
       = [Status peer_added]"
proof -
  let ?net = "make_network [''M'', ''V'', ''E'']"
  have e: "eps ?net ''V'' = Some new_endpoint" "eps ?net ''M'' = Some new_endpoint"
    by (simp_all add: make_network_def)
  have u: "unpeered ?net"
    by (simp add: unpeered_def make_network_def new_endpoint_def)
  have i: "''V'' \<in> set (ids ?net)" by (simp add: make_network_def)
  have l: "listening new_endpoint \<noteq> Some 4040" by (simp add: new_endpoint_def)
  have b: "bus ?net ''V'' = []" "bus ?net ''M'' = []"
    by (simp_all add: bus_def make_network_def new_endpoint_def)
  have "\<exists>n\<ge>1.
           bus (ticks 2 (peer ''V'' (''M'', 4040) 1 ?net)) ''V''
             = bus ?net ''V'' @ replicate n (Error peer_unavailable)
         \<and> bus (ticks 1 (listen ''M'' 4040 (ticks 2 (peer ''V'' (''M'', 4040) 1 ?net)))) ''V''
             = bus ?net ''V'' @ replicate n (Error peer_unavailable) @ [Status peer_added]
         \<and> bus (ticks 1 (listen ''M'' 4040 (ticks 2 (peer ''V'' (''M'', 4040) 1 ?net)))) ''M''
             = bus ?net ''M'' @ [Status peer_added]"
    by (rule connection_retry [OF e(1) e(2) _ u i _ l]) simp_all
  then have x: "\<exists>n\<ge>1. bus (ticks 1 (listen ''M'' 4040 (ticks 2
                  (peer ''V'' (''M'', 4040) 1 ?net)))) ''V''
              = replicate n (Error peer_unavailable) @ [Status peer_added]"
    unfolding b by auto
  have v: "bus (ticks 1 (listen ''M'' 4040 (ticks 2 (peer ''V'' (''M'', 4040) 1 ?net)))) ''V''
       = [Error peer_unavailable, Error peer_unavailable, Error peer_unavailable,
          Status peer_added]"
    by code_simp
  have m: "bus (ticks 1 (listen ''M'' 4040 (ticks 2 (peer ''V'' (''M'', 4040) 1 ?net)))) ''M''
       = [Status peer_added]"
    by code_simp
  from e u l x v m show ?thesis by blast
qed

end
